(* ===== verification/Prelude.thy ===== *)
theory Prelude
  imports Main "HOL-Library.Word"
begin

text \<open>
  Shared vocabulary of the development: the C types of \<^verbatim>\<open>zutil.h\<close>/\<^verbatim>\<open>zlib.h\<close>
  that \<^verbatim>\<open>src/infblock.c\<close> uses (\<^verbatim>\<open>Byte\<close>, \<^verbatim>\<open>uLong\<close>), the status codes of
  \<^verbatim>\<open>zlib.h\<close>, the caller's stream record \<^verbatim>\<open>z_stream\<close> restricted to the fields
  the block decoder reads and writes, and the control-flow result of the decoder's
  macros (continue, or \<^verbatim>\<open>LEAVE\<close>). It also holds the list and word lemmas the
  component theories share, collected in the named theorem lists below.
\<close>

named_theorems frame_simps
  \<open>frame lemmas: which record fields an operation leaves unchanged\<close>
named_theorems bits_simps
  \<open>bit-level rewriting of the 32-bit bit buffer\<close>

type_synonym byte = "8 word"
type_synonym uLong = "32 word"

text \<open>The return codes of \<^verbatim>\<open>zlib.h\<close> that the block decoder produces or forwards.\<close>

datatype zstatus =
    Z_OK | Z_STREAM_END | Z_STREAM_ERROR | Z_DATA_ERROR | Z_MEM_ERROR | Z_BUF_ERROR

text \<open>
  The caller's stream. \<^verbatim>\<open>next_in\<close>/\<^verbatim>\<open>avail_in\<close> are a byte buffer and a
  cursor into it (\<open>pos_in\<close>, so that the decoder's \<^verbatim>\<open>p--\<close> that returns an
  unused byte is a decrement); \<^verbatim>\<open>next_out\<close>/\<^verbatim>\<open>avail_out\<close> are the bytes
  delivered so far (\<open>out\<close>) and the space left.
\<close>

record z_stream =
  next_in :: "byte list"
  pos_in :: nat
  total_in :: nat
  out :: "byte list"
  avail_out :: nat
  total_out :: nat
  msg :: string

definition avail_in :: "z_stream \<Rightarrow> nat" where
  "avail_in z = length (next_in z) - pos_in z"

text \<open>
  Outcome of a macro or of one pass of the \<^verbatim>\<open>switch\<close>: \<open>Cont\<close> continues with the
  updated status \<open>r\<close>, state and stream; \<open>Leave\<close> is the \<^verbatim>\<open>LEAVE\<close> macro
  (commit the locals and return \<^verbatim>\<open>inflate_flush(s,z,r)\<close>).
\<close>

datatype 's flow = Cont zstatus 's z_stream | Leave zstatus 's z_stream

primrec flow_z :: "'s flow \<Rightarrow> z_stream" where
  "flow_z (Cont r s z) = z"
| "flow_z (Leave r s z) = z"

primrec flow_s :: "'s flow \<Rightarrow> 's" where
  "flow_s (Cont r s z) = s"
| "flow_s (Leave r s z) = s"

primrec flow_cont :: "'s flow \<Rightarrow> bool" where
  "flow_cont (Cont r s z) = True"
| "flow_cont (Leave r s z) = False"

text \<open>The input bytes not yet consumed.\<close>

definition rest_in :: "z_stream \<Rightarrow> byte list" where
  "rest_in z = drop (pos_in z) (next_in z)"

subsection \<open>Shared lemmas\<close>

lemma avail_in_rest_in [simp]: "length (rest_in z) = avail_in z"
  by (simp add: rest_in_def avail_in_def)

lemma rest_in_Cons:
  "pos_in z < length (next_in z) \<Longrightarrow>
     rest_in z = next_in z ! pos_in z # rest_in (z\<lparr>pos_in := Suc (pos_in z)\<rparr>)"
  by (simp add: rest_in_def Cons_nth_drop_Suc)

lemma rest_in_update [simp]:
  "rest_in (z\<lparr>total_in := n\<rparr>) = rest_in z"
  "rest_in (z\<lparr>out := o'\<rparr>) = rest_in z"
  "rest_in (z\<lparr>avail_out := a\<rparr>) = rest_in z"
  "rest_in (z\<lparr>total_out := t\<rparr>) = rest_in z"
  "rest_in (z\<lparr>msg := m\<rparr>) = rest_in z"
  by (simp_all add: rest_in_def)

lemma avail_in_update [simp]:
  "avail_in (z\<lparr>total_in := n\<rparr>) = avail_in z"
  "avail_in (z\<lparr>out := o'\<rparr>) = avail_in z"
  "avail_in (z\<lparr>avail_out := a\<rparr>) = avail_in z"
  "avail_in (z\<lparr>total_out := t\<rparr>) = avail_in z"
  "avail_in (z\<lparr>msg := m\<rparr>) = avail_in z"
  by (simp_all add: avail_in_def)

end
