(* ===== verification/BitBuf.thy ===== *)
theory BitBuf
  imports Prelude
begin

text \<open>
  The bit buffer (spec section 4.1). The decoder keeps the pending bits in
  \<^verbatim>\<open>s->bitb\<close> (a \<^verbatim>\<open>uLong\<close>, here \<open>32 word\<close>) and their number in
  \<^verbatim>\<open>s->bitk\<close>; the macros \<^verbatim>\<open>NEEDBYTE\<close>, \<^verbatim>\<open>NEXTBYTE\<close>, \<^verbatim>\<open>NEEDBITS\<close> and
  \<^verbatim>\<open>DUMPBITS\<close> of \<^verbatim>\<open>infutil.h\<close> (not in \<^verbatim>\<open>src/\<close>, modelled from the spec)
  pull input bytes into it LSB-first and shift consumed bits out. The record
  \<open>bitbuf\<close> is the root of the decoder's state record, so that the operations here
  apply to every extension of it. The abstract view is the bit stream
  \<open>stream s z\<close>: the pending bits followed by the bits of the unread input.
\<close>

unbundle bit_operations_syntax

record bitbuf =
  bitb :: uLong
  bitk :: nat

text \<open>\<^verbatim>\<open>NEXTBYTE\<close> is \<^verbatim>\<open>(n--, *p++)\<close>: the byte under the cursor, cursor advanced.\<close>

definition nextbyte :: "z_stream \<Rightarrow> byte \<times> z_stream" where
  "nextbyte z = (next_in z ! pos_in z,
                 z\<lparr>pos_in := Suc (pos_in z), total_in := Suc (total_in z)\<rparr>)"

text \<open>
  \<^verbatim>\<open>NEEDBITS(j)\<close>: \<^verbatim>\<open>while (k < j) { NEEDBYTE; b |= ((uLong)NEXTBYTE) << k; k += 8; }\<close>,
  where \<^verbatim>\<open>NEEDBYTE\<close> is \<^verbatim>\<open>if (n) r = Z_OK; else LEAVE\<close>. Bits are appended at
  position \<open>bitk\<close> by an OR, as the spec describes; on exhausted input the bytes already
  taken stay committed in the buffer.
\<close>

function needbits :: "nat \<Rightarrow> zstatus \<Rightarrow> 'a bitbuf_scheme \<Rightarrow> z_stream \<Rightarrow> 'a bitbuf_scheme flow" where
  "needbits j r s z =
     (if bitk s < j then
        (if avail_in z \<noteq> 0 then
           (let (c, z') = nextbyte z
            in needbits j Z_OK
                 (s\<lparr>bitb := bitb s OR push_bit (bitk s) (ucast c), bitk := bitk s + 8\<rparr>) z')
         else Leave r s z)
      else Cont r s z)"
  by pat_completeness auto
termination
  by (relation "measure (\<lambda>(j, r, s, z). avail_in z)")
     (auto simp: nextbyte_def avail_in_def)

declare needbits.simps [simp del]

text \<open>\<^verbatim>\<open>DUMPBITS(j)\<close>: \<^verbatim>\<open>b >>= j; k -= j;\<close>\<close>

definition dumpbits :: "nat \<Rightarrow> 'a bitbuf_scheme \<Rightarrow> 'a bitbuf_scheme" where
  "dumpbits j s = s\<lparr>bitb := drop_bit j (bitb s), bitk := bitk s - j\<rparr>"

text \<open>\<^verbatim>\<open>inflate_mask[n]\<close> of \<^verbatim>\<open>infutil.c\<close> is \<open>2^n - 1\<close>, the library's \<open>mask n\<close>.\<close>

definition peekbits :: "nat \<Rightarrow> 'a bitbuf_scheme \<Rightarrow> nat" where
  "peekbits n s = unat (bitb s AND mask n)"

subsection \<open>Abstract view: the bit stream\<close>

definition bits_of_byte :: "byte \<Rightarrow> bool list" where
  "bits_of_byte c = map (bit c) [0..<8]"

definition pending_bits :: "'a bitbuf_scheme \<Rightarrow> bool list" where
  "pending_bits s = map (bit (bitb s)) [0..<bitk s]"

definition stream :: "'a bitbuf_scheme \<Rightarrow> z_stream \<Rightarrow> bool list" where
  "stream s z = pending_bits s @ concat (map bits_of_byte (rest_in z))"

text \<open>LSB-first reading of a bit list as a number.\<close>

fun nat_of_bits :: "bool list \<Rightarrow> nat" where
  "nat_of_bits [] = 0"
| "nat_of_bits (b # bs) = of_bool b + 2 * nat_of_bits bs"

text \<open>
  The buffer is clean when no bit above \<open>bitk\<close> is set and it does not claim more bits
  than the word holds. \<^verbatim>\<open>NEEDBITS\<close> ORs new bytes in at \<open>bitk\<close>, so it is correct
  only on a clean buffer.
\<close>

definition clean :: "'a bitbuf_scheme \<Rightarrow> bool" where
  "clean s \<longleftrightarrow> bitk s \<le> 32 \<and> take_bit (bitk s) (bitb s) = bitb s"

lemma length_bits_of_byte [simp]: "length (bits_of_byte c) = 8"
  by (simp add: bits_of_byte_def)

lemma length_stream: "length (stream s z) = bitk s + 8 * avail_in z"
  by (simp add: stream_def pending_bits_def length_concat comp_def sum_list_triv
      flip: avail_in_rest_in)

lemma stream_clean_cong:
  "bitb s' = bitb s \<Longrightarrow> bitk s' = bitk s \<Longrightarrow> stream s' z = stream s z \<and> (clean s' \<longleftrightarrow> clean s)"
  by (simp add: stream_def pending_bits_def clean_def)

subsection \<open>Frame lemmas\<close>

text \<open>
  \<^verbatim>\<open>NEEDBITS\<close> and \<^verbatim>\<open>DUMPBITS\<close> change only the bit buffer of the state, and
  only the input cursor and counter of the stream. Both facts are equations on the
  state with those fields erased.
\<close>

definition bit_frame :: "'a bitbuf_scheme \<Rightarrow> 'a bitbuf_scheme" where
  "bit_frame s = s\<lparr>bitb := 0, bitk := 0\<rparr>"

definition in_frame :: "z_stream \<Rightarrow> z_stream" where
  "in_frame z = z\<lparr>pos_in := 0, total_in := 0\<rparr>"

lemma bit_frame_upd [simp]:
  "bit_frame (s\<lparr>bitb := b\<rparr>) = bit_frame s"
  "bit_frame (s\<lparr>bitk := k\<rparr>) = bit_frame s"
  by (simp_all add: bit_frame_def)

lemma in_frame_nextbyte [simp]: "in_frame (snd (nextbyte z)) = in_frame z"
  by (simp add: in_frame_def nextbyte_def)

lemma dumpbits_frame [simp, frame_simps]: "bit_frame (dumpbits j s) = bit_frame s"
  by (simp add: dumpbits_def)

lemma needbits_frame [frame_simps]:
  "bit_frame (flow_s (needbits j r s z)) = bit_frame s \<and>
   in_frame (flow_z (needbits j r s z)) = in_frame z"
proof (induction j r s z rule: needbits.induct)
  case (1 j r s z)
  then show ?case
    by (auto simp: needbits.simps [of j r s z] Let_def nextbyte_def in_frame_def split: prod.splits)
qed

lemma needbits_Cont_frame:
  "needbits j r s z = Cont r' s' z' \<Longrightarrow> bit_frame s' = bit_frame s"
  using needbits_frame [of j r s z] by simp

subsection \<open>Refinement: the buffer implements the bit stream\<close>

lemma clean_bit_above:
  "clean s \<Longrightarrow> bitk s \<le> i \<Longrightarrow> \<not> bit (bitb s) i"
  unfolding clean_def by (metis bit_take_bit_iff not_le)

lemma bit_byte_lt: "bit (c::byte) j \<Longrightarrow> j < 8"
  using bit_imp_le_length [of c j] by simp

lemma bit_or_push_byte [bits_simps]:
  "bit (b OR push_bit k (ucast (c::byte)) :: uLong) i \<longleftrightarrow>
     bit b i \<or> (k \<le> i \<and> i < 32 \<and> i - k < 8 \<and> bit c (i - k))"
  by (auto simp: bit_or_iff bit_push_bit_iff bit_ucast_iff possible_bit_def dest: bit_byte_lt)

lemma map_upt_shift: "map f [k..<k + n] = map (\<lambda>i. f (i + k)) [0..<n]"
  by (induction n) (auto simp: add.commute)

lemma pending_bits_add_byte:
  assumes "clean s" "bitk s + 8 \<le> 32"
  shows "pending_bits (s\<lparr>bitb := bitb s OR push_bit (bitk s) (ucast c), bitk := bitk s + 8\<rparr>)
           = pending_bits s @ bits_of_byte c"
proof -
  let ?b = "bitb s OR push_bit (bitk s) (ucast c)"
  have lo: "map (bit ?b) [0..<bitk s] = map (bit (bitb s)) [0..<bitk s]"
    by (auto simp: bit_or_push_byte)
  have hi: "map (bit ?b) [bitk s..<bitk s + 8] = map (bit c) [0..<8]"
    using assms by (auto simp: map_upt_shift bit_or_push_byte clean_bit_above)
  show ?thesis
    unfolding pending_bits_def bits_of_byte_def
    by (simp add: upt_add_eq_append [of 0 "bitk s" 8] lo hi)
qed

lemma clean_add_byte:
  assumes "clean s" "bitk s + 8 \<le> 32"
  shows "clean (s\<lparr>bitb := bitb s OR push_bit (bitk s) (ucast (c::byte)), bitk := bitk s + 8\<rparr>)"
proof -
  have hi: "n < bitk s + 8" if "bit (bitb s OR push_bit (bitk s) (ucast c)) n" for n
  proof -
    from that have "bit (bitb s) n \<or> (bitk s \<le> n \<and> n - bitk s < 8)"
      unfolding bit_or_push_byte by blast
    then show ?thesis
      using clean_bit_above [OF assms(1), of n] by (cases "bitk s \<le> n") auto
  qed
  have "take_bit (bitk s + 8) (bitb s OR push_bit (bitk s) (ucast c)) =
          bitb s OR push_bit (bitk s) (ucast c)"
    by (rule bit_eqI) (auto simp del: take_bit_or simp: bit_take_bit_iff dest: hi)
  with assms show ?thesis by (simp add: clean_def)
qed


lemma stream_add_byte:
  assumes "clean s" "bitk s + 8 \<le> 32" "avail_in z \<noteq> 0" "nextbyte z = (c, z')"
  shows "stream (s\<lparr>bitb := bitb s OR push_bit (bitk s) (ucast c), bitk := bitk s + 8\<rparr>) z' = stream s z"
proof -
  from assms(3,4) have "rest_in z = c # rest_in z'"
    by (auto simp: nextbyte_def avail_in_def rest_in_Cons)
  with pending_bits_add_byte [OF assms(1,2)] show ?thesis
    by (simp add: stream_def)
qed

lemma fits_byte: "bitk s < j \<Longrightarrow> j \<le> 25 \<or> (8 dvd bitk s \<and> j \<le> 32) \<Longrightarrow> bitk s + 8 \<le> 32"
  by (auto elim!: dvdE)

text \<open>
  \<^verbatim>\<open>NEEDBITS(j)\<close> on a clean buffer keeps the bit stream and the buffer clean, as long
  as no byte is shifted past bit 31: \<open>j \<le> 25\<close>, or \<open>j \<le> 32\<close> on a byte-aligned count
  (the \<^verbatim>\<open>NEEDBITS(32)\<close> of \<^verbatim>\<open>LENS\<close>).
\<close>

lemma needbits_stream:
  assumes "clean s" "j \<le> 25 \<or> (8 dvd bitk s \<and> j \<le> 32)"
  shows "stream (flow_s (needbits j r s z)) (flow_z (needbits j r s z)) = stream s z \<and>
         clean (flow_s (needbits j r s z))"
  using assms
proof (induction j r s z rule: needbits.induct)
  case (1 j r s z)
  show ?case
  proof (cases "bitk s < j \<and> avail_in z \<noteq> 0")
    case True
    obtain c z' where nb: "nextbyte z = (c, z')" by fastforce
    let ?s = "s\<lparr>bitb := bitb s OR push_bit (bitk s) (ucast c), bitk := bitk s + 8\<rparr>"
    have fit: "bitk s + 8 \<le> 32" using True "1.prems"(2) by (auto intro: fits_byte)
    have "j \<le> 25 \<or> (8 dvd bitk ?s \<and> j \<le> 32)" using "1.prems"(2) by auto
    with "1.IH" [OF True [THEN conjunct1] True [THEN conjunct2] nb [symmetric] refl
                    clean_add_byte [OF "1.prems"(1) fit]]
    have "stream (flow_s (needbits j Z_OK ?s z')) (flow_z (needbits j Z_OK ?s z')) = stream ?s z' \<and>
          clean (flow_s (needbits j Z_OK ?s z'))" by blast
    with stream_add_byte [OF "1.prems"(1) fit True [THEN conjunct2] nb] True nb show ?thesis
      by (simp add: needbits.simps [of j r s z])
  next
    case False
    with "1.prems" show ?thesis by (auto simp: needbits.simps [of j r s z])
  qed
qed

lemma needbits_Cont:
  "needbits j r s z = Cont r' s' z' \<Longrightarrow> j \<le> bitk s'"
proof (induction j r s z rule: needbits.induct)
  case (1 j r s z)
  then show ?case
    by (cases "bitk s < j") (auto simp: needbits.simps [of j r s z] Let_def split: prod.splits if_splits)
qed

lemma needbits_Leave:
  "needbits j r s z = Leave r' s' z' \<Longrightarrow> avail_in z' = 0 \<and> bitk s' < j"
proof (induction j r s z rule: needbits.induct)
  case (1 j r s z)
  then show ?case
    by (cases "bitk s < j") (auto simp: needbits.simps [of j r s z] Let_def split: prod.splits if_splits)
qed

text \<open>The number of bits available, in the buffer and in the input, is unchanged.\<close>

lemma needbits_avail:
  "8 * avail_in (flow_z (needbits j r s z)) + bitk (flow_s (needbits j r s z)) =
     8 * avail_in z + bitk s"
proof (induction j r s z rule: needbits.induct)
  case (1 j r s z)
  then show ?case
    by (auto simp: needbits.simps [of j r s z] Let_def nextbyte_def avail_in_def split: prod.splits)
qed

lemma dumpbits_stream:
  assumes "clean s" "n \<le> bitk s"
  shows "stream (dumpbits n s) z = drop n (stream s z) \<and> clean (dumpbits n s)"
proof -
  have "pending_bits (dumpbits n s) = map (bit (bitb s)) [n..<bitk s]"
    using assms(2) map_upt_shift [of "bit (bitb s)" n "bitk s - n"]
    by (simp add: pending_bits_def dumpbits_def bit_drop_bit_eq add.commute)
  moreover have "i < bitk s - n" if "bit (bitb s) (n + i)" for i
  proof -
    from that have "n + i < bitk s"
      using clean_bit_above [OF assms(1), of "n + i"] by (cases "bitk s \<le> n + i") auto
    then show ?thesis by arith
  qed
  then have "take_bit (bitk s - n) (drop_bit n (bitb s)) = drop_bit n (bitb s)"
    by (intro bit_eqI) (auto simp: bit_take_bit_iff bit_drop_bit_eq)
  moreover have "bitk s - n \<le> 32" using assms(1) unfolding clean_def by linarith
  ultimately show ?thesis
    using assms by (simp add: stream_def pending_bits_def clean_def dumpbits_def drop_map)
qed

lemma nat_of_bits_take_bit: "nat_of_bits (map (bit (x::nat)) [0..<n]) = take_bit n x"
proof (induction n arbitrary: x)
  case 0
  then show ?case by simp
next
  case (Suc n)
  have "map (bit x) [0..<Suc n] = bit x 0 # map (bit (x div 2)) [0..<n]"
    by (simp add: upt_conv_Cons map_Suc_upt [symmetric] bit_Suc del: upt_Suc)
  then show ?case
    by (simp add: Suc.IH take_bit_Suc mod2_eq_if bit_0)
qed

lemma peekbits_stream:
  assumes "clean s" "n \<le> bitk s"
  shows "peekbits n s = nat_of_bits (take n (stream s z))"
proof -
  have "take n (stream s z) = map (bit (unat (bitb s))) [0..<n]"
    using assms by (auto simp: stream_def pending_bits_def clean_def take_map bit_unsigned_iff)
  then show ?thesis
    by (simp add: peekbits_def nat_of_bits_take_bit unsigned_take_bit_eq take_bit_eq_mask [symmetric])
qed

text \<open>
  The macro sequence of the decoder,
  \<^verbatim>\<open>NEEDBITS(j); x = b & inflate_mask[n]; DUMPBITS(n)\<close> with \<open>n \<le> j \<le> 25\<close>:
  when it does not run out of input it reads the next \<open>n\<close> bits of the stream,
  LSB-first, and leaves the rest of the stream in a clean buffer.
\<close>

theorem read_bits_refines:
  assumes "clean s" "n \<le> j" "j \<le> 25" "needbits j r s z = Cont r' s' z'"
  shows "peekbits n s' = nat_of_bits (take n (stream s z)) \<and>
         stream (dumpbits n s') z' = drop n (stream s z) \<and> clean (dumpbits n s')"
proof -
  from needbits_stream [OF assms(1), of j r z] assms(3,4)
  have st: "stream s' z' = stream s z" and cl: "clean s'" by simp_all
  from needbits_Cont [OF assms(4)] assms(2) have n: "n \<le> bitk s'" by simp
  show ?thesis
    using peekbits_stream [OF cl n, of z'] dumpbits_stream [OF cl n, of z'] st by simp
qed

theorem read_bits_refines_witness:
  "peekbits 5 (flow_s (needbits 8 Z_OK (\<lparr>bitb = 5, bitk = 3\<rparr> :: bitbuf)
                   \<lparr>next_in = [0xAB], pos_in = 0, total_in = 0, out = [], avail_out = 0,
                    total_out = 0, msg = []\<rparr>)) = 29 \<and>
   nat_of_bits (take 5 (stream (\<lparr>bitb = 5, bitk = 3\<rparr> :: bitbuf)
                   \<lparr>next_in = [0xAB], pos_in = 0, total_in = 0, out = [], avail_out = 0,
                    total_out = 0, msg = []\<rparr>)) = 29"
proof -
  let ?s = "\<lparr>bitb = 5, bitk = 3\<rparr> :: bitbuf"
  let ?z = "\<lparr>next_in = [0xAB], pos_in = 0, total_in = 0, out = [], avail_out = 0,
             total_out = 0, msg = []\<rparr>"
  have nb: "needbits 8 Z_OK ?s ?z =
              Cont Z_OK (?s\<lparr>bitb := 5 OR push_bit 3 (ucast (0xAB :: byte)), bitk := 11\<rparr>)
                (?z\<lparr>pos_in := 1, total_in := 1\<rparr>)"
    by (simp add: needbits.simps [of 8] nextbyte_def avail_in_def)
  have cl: "clean ?s" by (simp add: clean_def)
  have "peekbits 5 (flow_s (needbits 8 Z_OK ?s ?z)) = nat_of_bits (take 5 (stream ?s ?z))"
    using read_bits_refines [where n = 5, OF cl _ _ nb] by (simp add: nb)
  moreover have "peekbits 5 (flow_s (needbits 8 Z_OK ?s ?z)) = 29"
    by (simp add: nb peekbits_def mask_eq_exp_minus_1)
  ultimately show ?thesis by simp
qed

subsection \<open>Byte assembly in the 32-bit buffer\<close>

text \<open>
  \<^verbatim>\<open>NEEDBITS\<close> ORs a byte in above the bits held; on a buffer with nothing above
  bit \<open>k\<close> that is an addition, and the numeric reading of \<^verbatim>\<open>NOT\<close> and of the
  16-bit mask used by \<^verbatim>\<open>case LENS\<close>.
\<close>

lemma or_push_byte_add:
  assumes "unat (x :: uLong) < 2 ^ k" "k + 8 \<le> 32"
  shows "unat (x OR push_bit k (ucast (c :: byte))) = unat x + 2 ^ k * unat c"
proof -
  have d: "x AND push_bit k (ucast c) = 0"
  proof (rule bit_eqI)
    fix i assume "possible_bit TYPE(32 word) i"
    show "bit (x AND push_bit k (ucast c)) i = bit 0 i"
    proof (cases "i < k")
      case True then show ?thesis by (simp add: bit_and_iff bit_push_bit_iff)
    next
      case False
      have "unat x div 2 ^ i = 0"
        using assms(1) False by (metis div_less order_less_le_trans power_increasing_iff one_less_numeral_iff semiring_norm(76) not_less)
      then have "\<not> bit (unat x) i" by (simp add: bit_iff_odd)
      then have "\<not> bit x i" by (simp add: bit_unsigned_iff)
      then show ?thesis by (simp add: bit_and_iff)
    qed
  qed
  have "x OR push_bit k (ucast c) = x + push_bit k (ucast c)"
    using disjunctive_add_eq_or [OF d] by simp
  moreover have "unat (push_bit k (ucast c) :: uLong) = 2 ^ k * unat c \<and> unat x + 2 ^ k * unat c < 2 ^ 32"
  proof -
    have "unat c < 2 ^ 8" using unsigned_less [of c] by simp
    then have le: "Suc (unat c) \<le> 2 ^ 8" by simp
    have "unat x + 2 ^ k * unat c < 2 ^ k * Suc (unat c)"
      using assms(1) by simp
    also have "\<dots> \<le> 2 ^ k * 2 ^ 8" using le by (rule mult_le_mono2)
    also have "(2::nat) ^ k * 2 ^ 8 \<le> 2 ^ 32"
      unfolding power_add [symmetric] using assms(2) by (intro power_increasing) simp_all
    finally have sum: "unat x + 2 ^ k * unat c < 2 ^ 32" .
    then have "2 ^ k * unat c < 2 ^ 32" by simp
    moreover have "unat c < 2 ^ 32" using \<open>unat c < 2 ^ 8\<close> by simp
    ultimately have "unat (push_bit k (ucast c) :: uLong) = 2 ^ k * unat c"
      by (simp only: unsigned_push_bit_eq unsigned_ucast_eq)
         (simp add: take_bit_nat_eq_self push_bit_eq_mult mult.commute [of "unat c"])
    with sum show ?thesis by simp
  qed
  ultimately show ?thesis
    using unat_add_lem [of x "push_bit k (ucast c)"] by simp
qed
lemma unat_not32: "unat (NOT (x :: uLong)) = 4294967295 - unat x"
proof -
  have "NOT x = -1 - x" by (simp add: not_eq_complement)
  moreover have "x \<le> -1" by simp
  moreover have "unat (-1 :: uLong) = 4294967295" by (simp add: unsigned_minus_1_eq_mask mask_eq_exp_minus_1)
  ultimately show ?thesis by (simp add: unat_sub)
qed

lemma unat_and_ffff: "unat ((x :: uLong) AND 0xFFFF) = unat x mod 65536"
proof -
  have "x AND 0xFFFF = take_bit 16 x" by (simp add: take_bit_eq_mask mask_eq_exp_minus_1)
  then have "unat (x AND 0xFFFF) = take_bit 16 (unat x)" by (simp only: unsigned_take_bit_eq)
  then show ?thesis by (simp add: take_bit_eq_mod)
qed

end
