(* ===== verification/Window.thy ===== *)
theory Window
  imports BitBuf
begin

text \<open>
  The output window and the flush controller (spec sections 4.2 and 2.6). The
  window is the circular buffer \<^verbatim>\<open>s->window\<close> of \<^verbatim>\<open>w = end - window\<close> bytes with
  the read and write offsets \<^verbatim>\<open>s->read\<close>, \<^verbatim>\<open>s->write\<close> (here \<open>wread\<close>,
  \<open>wwrite\<close>, offsets from \<^verbatim>\<open>s->window\<close>); \<^verbatim>\<open>s->end\<close> is \<open>length (window s)\<close>.
  The macros \<^verbatim>\<open>WAVAIL\<close>, \<^verbatim>\<open>WRAP\<close>, \<^verbatim>\<open>OUTBYTE\<close>, \<^verbatim>\<open>NEEDOUT\<close>, \<^verbatim>\<open>FLUSH\<close>
  of \<^verbatim>\<open>infutil.h\<close> and \<^verbatim>\<open>inflate_flush\<close> of \<^verbatim>\<open>infutil.c\<close> are not in
  \<^verbatim>\<open>src/\<close>; they are modelled from the spec. The decoder's local write pointer
  \<^verbatim>\<open>q\<close> is identified with \<^verbatim>\<open>s->write\<close> and the local \<^verbatim>\<open>m\<close> with
  \<^verbatim>\<open>WAVAIL\<close>: the macros recompute \<^verbatim>\<open>m\<close> whenever \<^verbatim>\<open>q\<close> or \<^verbatim>\<open>s->read\<close>
  change and \<^verbatim>\<open>OUTBYTE\<close> decrements both sides together.

  The abstract view is the queue \<open>pending s\<close> of bytes written but not yet delivered;
  the lemmas show that writing appends to it, wrapping leaves it alone, and a flush
  delivers its first \<open>avail_out\<close> bytes in order and folds the checksum over them.
\<close>

record window_st = bitbuf +
  window :: "byte list"
  wread :: nat
  wwrite :: nat
  checkfn :: "(uLong \<Rightarrow> byte list \<Rightarrow> uLong) option"
  check :: uLong

text \<open>\<^verbatim>\<open>WAVAIL\<close>: \<^verbatim>\<open>q < s->read ? s->read - q - 1 : s->end - q\<close>.\<close>

definition wavail :: "'a window_st_scheme \<Rightarrow> nat" where
  "wavail s = (if wwrite s < wread s then wread s - wwrite s - 1
               else length (window s) - wwrite s)"

text \<open>\<^verbatim>\<open>WRAP\<close>: \<^verbatim>\<open>if (q == s->end && s->read != s->window) q = s->window;\<close>\<close>

definition wrap :: "'a window_st_scheme \<Rightarrow> 'a window_st_scheme" where
  "wrap s = (if wwrite s = length (window s) \<and> wread s \<noteq> 0 then s\<lparr>wwrite := 0\<rparr> else s)"

text \<open>\<^verbatim>\<open>OUTBYTE(a)\<close>: \<^verbatim>\<open>*q++ = (Byte)(a); m--;\<close>\<close>

definition outbyte :: "byte \<Rightarrow> 'a window_st_scheme \<Rightarrow> 'a window_st_scheme" where
  "outbyte c s = s\<lparr>window := (window s)[wwrite s := c], wwrite := Suc (wwrite s)\<rparr>"

definition slice :: "'b list \<Rightarrow> nat \<Rightarrow> nat \<Rightarrow> 'b list" where
  "slice xs i j = drop i (take j xs)"

text \<open>\<^verbatim>\<open>s->check = (*s->checkfn)(s->check, q, n)\<close> when a check function is set.\<close>

definition update_check :: "byte list \<Rightarrow> 'a window_st_scheme \<Rightarrow> 'a window_st_scheme" where
  "update_check bs s =
     (case checkfn s of None \<Rightarrow> s | Some f \<Rightarrow> s\<lparr>check := f (check s) bs\<rparr>)"

text \<open>
  One copy phase of \<^verbatim>\<open>inflate_flush\<close>: deliver the \<open>n\<close> window bytes from offset
  \<open>q\<close>, turn \<^verbatim>\<open>Z_BUF_ERROR\<close> into \<^verbatim>\<open>Z_OK\<close> when \<open>n \<noteq> 0\<close>, update the
  counters and the check value.
\<close>

definition flush_copy ::
  "zstatus \<Rightarrow> nat \<Rightarrow> nat \<Rightarrow> 'a window_st_scheme \<Rightarrow> z_stream
     \<Rightarrow> zstatus \<times> 'a window_st_scheme \<times> z_stream" where
  "flush_copy r q n s z =
     (let bs = slice (window s) q (q + n)
      in (if n \<noteq> 0 \<and> r = Z_BUF_ERROR then Z_OK else r,
          update_check bs s,
          z\<lparr>out := out z @ bs, avail_out := avail_out z - n, total_out := total_out z + n\<rparr>))"

text \<open>
  \<^verbatim>\<open>inflate_flush\<close>: copy from \<^verbatim>\<open>s->read\<close> up to \<^verbatim>\<open>s->write\<close> or to the end of
  the window, at most \<^verbatim>\<open>avail_out\<close> bytes; if that reached the end, wrap the read
  pointer (and the write pointer, if it sits at the end) and copy the part at the start
  of the window.
\<close>

definition inflate_flush ::
  "zstatus \<Rightarrow> 'a window_st_scheme \<Rightarrow> z_stream \<Rightarrow> zstatus \<times> 'a window_st_scheme \<times> z_stream" where
  "inflate_flush r s z =
     (let q = wread s;
          n = min ((if q \<le> wwrite s then wwrite s else length (window s)) - q) (avail_out z);
          (r, s, z) = flush_copy r q n s z;
          q = q + n
      in if q = length (window s) then
           (let q = 0;
                s = (if wwrite s = length (window s) then s\<lparr>wwrite := 0\<rparr> else s);
                n = min (wwrite s - q) (avail_out z);
                (r, s, z) = flush_copy r q n s z
            in (r, s\<lparr>wread := q + n\<rparr>, z))
         else (r, s\<lparr>wread := q\<rparr>, z))"

text \<open>
  \<^verbatim>\<open>NEEDOUT\<close>: \<^verbatim>\<open>if (m == 0) { WRAP if (m == 0) { FLUSH WRAP if (m == 0) LEAVE } } r = Z_OK;\<close>
  where \<^verbatim>\<open>FLUSH\<close> is \<^verbatim>\<open>s->write = q; r = inflate_flush(s, z, r); q = s->write;\<close>.
\<close>

definition needout :: "zstatus \<Rightarrow> 'a window_st_scheme \<Rightarrow> z_stream \<Rightarrow> 'a window_st_scheme flow" where
  "needout r s z =
     (if wavail s = 0 then
        (let s = wrap s
         in if wavail s = 0 then
              (let (r, s, z) = inflate_flush r s z; s = wrap s
               in if wavail s = 0 then Leave r s z else Cont Z_OK s z)
            else Cont Z_OK s z)
      else Cont Z_OK s z)"

subsection \<open>Abstract view: the pending queue\<close>

definition pending :: "'a window_st_scheme \<Rightarrow> byte list" where
  "pending s =
     (if wread s \<le> wwrite s then slice (window s) (wread s) (wwrite s)
      else slice (window s) (wread s) (length (window s)) @ take (wwrite s) (window s))"

text \<open>Everything the decoder has produced: delivered bytes, then pending ones.\<close>

definition produced :: "'a window_st_scheme \<Rightarrow> z_stream \<Rightarrow> byte list" where
  "produced s z = out z @ pending s"

definition wf_window :: "'a window_st_scheme \<Rightarrow> bool" where
  "wf_window s \<longleftrightarrow> wread s < length (window s) \<and> wwrite s \<le> length (window s)"

text \<open>
  The decoder's state part that the codes decoder (\<^verbatim>\<open>inflate_codes\<close>) works on:
  bit buffer, window and check value; \<open>with_io\<close> writes such a part back.
\<close>

definition io_of :: "'a window_st_scheme \<Rightarrow> window_st" where
  "io_of s = \<lparr>bitb = bitb s, bitk = bitk s, window = window s, wread = wread s,
              wwrite = wwrite s, checkfn = checkfn s, check = check s\<rparr>"

definition with_io :: "window_st \<Rightarrow> 'a window_st_scheme \<Rightarrow> 'a window_st_scheme" where
  "with_io w s = s\<lparr>bitb := bitb w, bitk := bitk w, window := window w, wread := wread w,
                   wwrite := wwrite w, checkfn := checkfn w, check := check w\<rparr>"

subsection \<open>Frame lemmas\<close>

text \<open>
  The state with the window pointers and the check value erased: operations of the
  flush controller change nothing else, which is stated as an equation on it.
\<close>

definition win_frame :: "'a window_st_scheme \<Rightarrow> 'a window_st_scheme" where
  "win_frame s = s\<lparr>wread := 0, wwrite := 0, check := 0\<rparr>"

lemma win_frame_upd [simp]:
  "win_frame (s\<lparr>wread := a\<rparr>) = win_frame s"
  "win_frame (s\<lparr>wwrite := a\<rparr>) = win_frame s"
  "win_frame (s\<lparr>check := c\<rparr>) = win_frame s"
  by (simp_all add: win_frame_def)

lemma win_frame_fields:
  assumes h: "win_frame s' = win_frame s"
  shows "bitb s' = bitb s \<and> bitk s' = bitk s \<and> window s' = window s \<and> checkfn s' = checkfn s"
  using arg_cong [OF h, of bitb] arg_cong [OF h, of bitk] arg_cong [OF h, of window]
    arg_cong [OF h, of checkfn]
  by (simp add: win_frame_def)

lemma update_check_frame [simp]: "win_frame (update_check bs s) = win_frame s"
  by (simp add: update_check_def split: option.splits)

lemma flush_copy_frame [frame_simps]:
  "flush_copy r q n s z = (r', s', z') \<Longrightarrow> win_frame s' = win_frame s"
  by (auto simp: flush_copy_def Let_def)

lemma inflate_flush_frame [frame_simps]:
  "inflate_flush r s z = (r', s', z') \<Longrightarrow> win_frame s' = win_frame s"
  by (auto simp: inflate_flush_def Let_def split: prod.splits if_splits dest!: flush_copy_frame)

lemma wrap_frame [simp]: "win_frame (wrap s) = win_frame s"
  by (simp add: wrap_def)

lemma needout_frame [frame_simps]:
  "win_frame (flow_s (needout r s z)) = win_frame s"
  by (auto simp: needout_def Let_def split: prod.splits dest!: inflate_flush_frame)
lemma flush_copy_in:
  "flush_copy r q n s z = (r', s', z') \<Longrightarrow> next_in z' = next_in z \<and> pos_in z' = pos_in z"
  by (auto simp: flush_copy_def Let_def)

lemma inflate_flush_in [frame_simps]:
  "inflate_flush r s z = (r', s', z') \<Longrightarrow> avail_in z' = avail_in z \<and> rest_in z' = rest_in z"
  by (auto simp: inflate_flush_def Let_def avail_in_def rest_in_def
           split: prod.splits if_splits dest!: flush_copy_in)

lemma needout_in [frame_simps]:
  "avail_in (flow_z (needout r s z)) = avail_in z \<and> rest_in (flow_z (needout r s z)) = rest_in z"
  by (auto simp: needout_def Let_def split: prod.splits dest!: inflate_flush_in)

lemma needout_Cont_in:
  "needout r s z = Cont r' s' z' \<Longrightarrow> avail_in z' = avail_in z"
  using needout_in [of r s z] by simp

subsection \<open>Slices\<close>

lemma length_slice [simp]: "length (slice xs i j) = min j (length xs) - i"
  by (simp add: slice_def)

lemma slice_append:
  assumes ij: "i \<le> j" and jk: "j \<le> k"
  shows "slice xs i j @ slice xs j k = slice xs i k"
proof -
  let ?ys = "take k xs"
  have "take j xs = take j ?ys" using jk by simp
  then have "slice xs i j @ slice xs j k = take (j - i) (drop i ?ys) @ drop (j - i) (drop i ?ys)"
    using ij jk by (simp add: slice_def drop_take min_absorb1)
  also have "\<dots> = drop i ?ys" by (rule append_take_drop_id)
  finally show ?thesis by (simp add: slice_def)
qed

lemma take_slice: "take n (slice xs i j) = slice xs i (min j (i + n))"
  by (simp add: slice_def take_drop min.commute add.commute)

lemma drop_slice: "drop n (slice xs i j) = slice xs (i + n) j"
  by (simp add: slice_def add.commute)

lemma slice_empty [simp]: "j \<le> i \<Longrightarrow> slice xs i j = []"
  by (simp add: slice_def)

lemma slice_0 [simp]: "slice xs 0 j = take j xs"
  by (simp add: slice_def)


subsection \<open>Writing and wrapping\<close>

lemma take_Suc_update:
  "i < length xs \<Longrightarrow> take (Suc i) (xs[i := c]) = take i xs @ [c]"
  by (simp add: take_Suc_conv_app_nth)

lemma slice_update_outside:
  "i < a \<or> b \<le> i \<Longrightarrow> slice (xs[i := c]) a b = slice xs a b"
  by (auto simp: slice_def take_update_cancel drop_take intro!: nth_equalityI
           simp del: take_update_swap)

lemma outbyte_pending:
  assumes "wf_window s" "wavail s \<noteq> 0"
  shows "pending (outbyte c s) = pending s @ [c] \<and> wf_window (outbyte c s)"
proof (cases "wwrite s < wread s")
  case True
  with assms have lt: "Suc (wwrite s) < wread s" "wread s < length (window s)"
    by (auto simp: wavail_def wf_window_def)
  then have "slice ((window s)[wwrite s := c]) (wread s) (length (window s)) =
               slice (window s) (wread s) (length (window s))"
    by (intro slice_update_outside) simp
  with True lt show ?thesis
    by (simp add: outbyte_def pending_def wf_window_def take_Suc_update)
next
  case False
  with assms have le: "wread s \<le> wwrite s" "wwrite s < length (window s)"
    by (auto simp: wavail_def wf_window_def)
  then have "slice ((window s)[wwrite s := c]) (wread s) (Suc (wwrite s)) =
               slice (window s) (wread s) (wwrite s) @ [c]"
    by (simp add: slice_def take_Suc_update)
  with le assms show ?thesis
    by (simp add: outbyte_def pending_def wf_window_def)
qed

lemma wrap_pending:
  "wf_window s \<Longrightarrow> pending (wrap s) = pending s \<and> wf_window (wrap s) \<and> window (wrap s) = window s"
  by (auto simp: wrap_def pending_def wf_window_def)


subsection \<open>Flushing\<close>

lemma flush_copy_effect:
  assumes "flush_copy r q n s z = (r', s', z')"
  shows "out z' = out z @ slice (window s) q (q + n) \<and> avail_out z' = avail_out z - n \<and>
         window s' = window s \<and> wread s' = wread s \<and> wwrite s' = wwrite s \<and>
         checkfn s' = checkfn s \<and>
         check s' = (case checkfn s of None \<Rightarrow> check s
                     | Some f \<Rightarrow> f (check s) (slice (window s) q (q + n)))"
  using assms by (auto simp: flush_copy_def update_check_def Let_def split: option.splits)

text \<open>
  \<^verbatim>\<open>inflate_flush\<close> delivers, in order, exactly the first \<^verbatim>\<open>avail_out\<close>
  bytes of the pending queue (\<^verbatim>\<open>s->read\<close> to \<^verbatim>\<open>s->write\<close>, wrapping at the end of
  the window); the rest stays pending, \<^verbatim>\<open>avail_out\<close> drops by the number delivered,
  and the window stays well formed.
\<close>

theorem inflate_flush_refines:
  assumes wf: "wf_window s" and fl: "inflate_flush r s z = (r', s', z')"
  shows "out z' = out z @ take (avail_out z) (pending s) \<and>
         pending s' = drop (avail_out z) (pending s) \<and>
         avail_out z' = avail_out z - min (avail_out z) (length (pending s)) \<and>
         wf_window s' \<and> window s' = window s"
proof -
  define q where "q = wread s"
  define n1 where "n1 = min ((if q \<le> wwrite s then wwrite s else length (window s)) - q) (avail_out z)"
  obtain r1 s1 z1 where f1: "flush_copy r q n1 s z = (r1, s1, z1)" by (metis prod_cases3)
  note e1 = flush_copy_effect [OF f1]
  from wf have q: "q < length (window s)" "wwrite s \<le> length (window s)"
    by (auto simp: wf_window_def q_def)
  show ?thesis
  proof (cases "q + n1 = length (window s)")
    case False
    with fl f1 e1 have res: "r' = r1" "s' = s1\<lparr>wread := q + n1\<rparr>" "z' = z1"
      by (auto simp: inflate_flush_def Let_def q_def [symmetric] n1_def [symmetric])
    show ?thesis
    proof (cases "q \<le> wwrite s")
      case True
      with False q have "q + n1 < length (window s)" "n1 = min (wwrite s - q) (avail_out z)"
        by (auto simp: n1_def)
      with True res e1 q show ?thesis
        by (auto simp: pending_def wf_window_def q_def take_slice drop_slice min_def)
    next
      case lt: False
      with False q have "n1 = avail_out z" "avail_out z < length (window s) - q"
        by (auto simp: n1_def)
      with lt res e1 q show ?thesis
        by (auto simp: pending_def wf_window_def q_def take_slice drop_slice min_def)
    qed
  next
    case True
    define s2 where "s2 = (if wwrite s1 = length (window s1) then s1\<lparr>wwrite := 0\<rparr> else s1)"
    define n2 where "n2 = min (wwrite s2) (avail_out z1)"
    obtain r3 s3 z3 where f3: "flush_copy r1 0 n2 s2 z1 = (r3, s3, z3)" by (metis prod_cases3)
    note e3 = flush_copy_effect [OF f3]
    from True e1 have True': "q + n1 = length (window s1)" by simp
    have "inflate_flush r s z = (r3, s3\<lparr>wread := n2\<rparr>, z3)"
      unfolding inflate_flush_def Let_def q_def [symmetric] n1_def [symmetric]
      using True' f1 f3 by (simp add: s2_def [symmetric] n2_def [symmetric])
    with fl have res: "r' = r3" "s' = s3\<lparr>wread := n2\<rparr>" "z' = z3" by simp_all
    show ?thesis
    proof (cases "q \<le> wwrite s")
      case le: True
      with True q have w: "wwrite s = length (window s)" "n1 = length (window s) - q"
          "length (window s) - q \<le> avail_out z"
        by (auto simp: n1_def)
      with e1 have "s2 = s1\<lparr>wwrite := 0\<rparr>" "n2 = 0" by (auto simp: s2_def n2_def)
      with w le res e1 e3 q show ?thesis
        by (auto simp: pending_def wf_window_def q_def min_def)
    next
      case lt: False
      with True q have n1: "n1 = length (window s) - q" "length (window s) - q \<le> avail_out z"
        by (auto simp: n1_def)
      from lt q e1 have "s2 = s1" by (auto simp: s2_def q_def)
      with e1 n1 have n2: "n2 = min (wwrite s) (avail_out z - (length (window s) - q))"
        by (simp add: n2_def)
      have "take (avail_out z - (length (window s) - q)) (take (wwrite s) (window s)) =
              take n2 (window s)"
        by (simp add: n2 min.commute)
      with lt n1 n2 res e1 e3 q \<open>s2 = s1\<close> show ?thesis
        by (auto simp: pending_def wf_window_def q_def drop_take min_def slice_def)
    qed
  qed
qed


text \<open>
  A check function is sequential when running it over two pieces is running it over
  their concatenation, as for Adler-32 and CRC-32 on a non-null buffer.
\<close>

definition sequential :: "(uLong \<Rightarrow> byte list \<Rightarrow> uLong) \<Rightarrow> bool" where
  "sequential f \<longleftrightarrow> (\<forall>c xs ys. f (f c xs) ys = f c (xs @ ys))"

lemma inflate_flush_check_out:
  assumes "inflate_flush r s z = (r', s', z')" "checkfn s = Some f" "sequential f"
  shows "check s' = f (check s) (drop (length (out z)) (out z'))"
  using assms
  by (auto simp: inflate_flush_def flush_copy_def update_check_def Let_def sequential_def min_def
           split: prod.splits if_splits)

text \<open>
  With a sequential check function, the check value after \<^verbatim>\<open>inflate_flush\<close> is the
  function applied to the old value and exactly the delivered bytes, although the
  flush may deliver them in two pieces around the end of the window.
\<close>

theorem inflate_flush_check:
  assumes "wf_window s" "inflate_flush r s z = (r', s', z')" "checkfn s = Some f" "sequential f"
  shows "check s' = f (check s) (take (avail_out z) (pending s))"
  using inflate_flush_check_out [OF assms(2-4)] inflate_flush_refines [OF assms(1,2)] by simp


lemma inflate_flush_produced:
  assumes "wf_window s" "inflate_flush r s z = (r', s', z')"
  shows "produced s' z' = produced s z \<and> wf_window s' \<and> window s' = window s"
  using inflate_flush_refines [OF assms] by (simp add: produced_def)

lemma needout_produced:
  assumes "wf_window s"
  shows "produced (flow_s (needout r s z)) (flow_z (needout r s z)) = produced s z \<and>
         wf_window (flow_s (needout r s z)) \<and> window (flow_s (needout r s z)) = window s"
proof -
  have w: "produced (wrap t) z = produced t z \<and> wf_window (wrap t) \<and> window (wrap t) = window t"
    if "wf_window t" for t z
    using wrap_pending [OF that] by (simp add: produced_def)
  show ?thesis
    using assms
    by (auto simp: needout_def Let_def w split: prod.splits dest!: inflate_flush_produced [rotated])
qed

lemma needout_Cont_space:
  "needout r s z = Cont r' s' z' \<Longrightarrow> wavail s' \<noteq> 0"
  by (auto simp: needout_def Let_def split: prod.splits if_splits)

subsection \<open>Witnesses\<close>

text \<open>A wrapped window of four bytes: pending are the byte at offset 3, then offset 0.\<close>

definition wit_win :: window_st where
  "wit_win = \<lparr>bitb = 0, bitk = 0, window = [1, 2, 3, 4], wread = 3, wwrite = 1,
              checkfn = Some (foldl (\<lambda>c b. 31 * c + ucast b)), check = 7\<rparr>"

definition wit_out :: z_stream where
  "wit_out = \<lparr>next_in = [], pos_in = 0, total_in = 0, out = [9], avail_out = 2,
              total_out = 0, msg = []\<rparr>"

theorem inflate_flush_refines_witness:
  "out (snd (snd (inflate_flush Z_BUF_ERROR wit_win wit_out))) = [9, 4, 1] \<and>
   pending (fst (snd (inflate_flush Z_BUF_ERROR wit_win wit_out))) = []"
proof -
  have wf: "wf_window wit_win" by (simp add: wit_win_def wf_window_def)
  have p: "pending wit_win = [4, 1]" by (simp add: wit_win_def pending_def slice_def)
  obtain r' s' z' where e: "inflate_flush Z_BUF_ERROR wit_win wit_out = (r', s', z')"
    by (metis prod_cases3)
  from inflate_flush_refines [OF wf e] show ?thesis
    unfolding e by (simp add: wit_out_def wit_win_def pending_def slice_def)
qed

theorem inflate_flush_check_witness:
  "check (fst (snd (inflate_flush Z_BUF_ERROR wit_win wit_out))) = 31 * (31 * 7 + 4) + 1"
proof -
  have wf: "wf_window wit_win" by (simp add: wit_win_def wf_window_def)
  have p: "pending wit_win = [4, 1]" by (simp add: wit_win_def pending_def slice_def)
  have sq: "sequential (foldl (\<lambda>c (b::byte). 31 * c + ucast b))"
    by (simp add: sequential_def)
  obtain r' s' z' where e: "inflate_flush Z_BUF_ERROR wit_win wit_out = (r', s', z')"
    by (metis prod_cases3)
  have "checkfn wit_win = Some (foldl (\<lambda>c (b::byte). 31 * c + ucast b))"
    by (simp add: wit_win_def)
  from inflate_flush_check [OF wf e this sq] show ?thesis
    unfolding e by (simp add: wit_out_def wit_win_def pending_def slice_def)
qed

end
