(* ===== verification/Blocks.thy ===== *)
theory Blocks
  imports Window
begin

text \<open>
  The block decoder of \<^verbatim>\<open>src/infblock.c\<close>: the state \<^verbatim>\<open>struct inflate_blocks_state\<close>
  as the record \<open>blocks_state\<close> (extending the bit buffer and window records), its
  \<^verbatim>\<open>mode\<close> enumeration as \<open>block_mode\<close>, one definition per case of the
  \<^verbatim>\<open>while (1) switch (s->mode)\<close> loop of \<^verbatim>\<open>inflate_blocks\<close>, the loop itself as
  a \<^theory_text>\<open>partial_function (option)\<close>, and \<^verbatim>\<open>inflate_blocks_new\<close> /
  \<^verbatim>\<open>inflate_blocks_free\<close>.

  The collaborators outside the file (\<^verbatim>\<open>inftrees.c\<close>, \<^verbatim>\<open>infcodes.c\<close>, the
  allocator) are the fields of the record \<open>env\<close>: every lemma about the decoder holds
  for any implementation of them, and lemmas that need more of them say so in a
  hypothesis.

  The C \<^verbatim>\<open>union sub\<close> becomes separate fields, each used only in the modes where
  the union holds it. Heap objects the state owns are \<open>option\<close> fields: \<open>None\<close>
  when the object is not allocated (\<^verbatim>\<open>blens\<close>, the bit-length tree \<^verbatim>\<open>tb\<close>, the
  codes decoder), so that the allocation and release of each is part of the model.
\<close>

unbundle bit_operations_syntax

datatype block_mode =
    TYPE_M | LENS | STORED | TABLE | BTREE | DTREE | CODES | DRY | DONE | INF_ERROR

record ('t, 'c) blocks_state = window_st +
  mode :: block_mode
  last_blk :: bool
  left :: "32 word"
  table :: nat
  index :: nat
  blens :: "nat list option"
  bb :: nat
  tb :: "'t option"
  codes :: "'c option"

text \<open>The requests the decoder makes of the allocator (\<^verbatim>\<open>ZALLOC\<close>).\<close>

datatype alloc_req = State_struct | Window_buf nat | Blens_buf nat

text \<open>
  The external collaborators. \<open>'t\<close> is the type of a Huffman decoding table
  (\<^verbatim>\<open>inflate_huft *\<close>), \<open>'c\<close> that of a codes-decoder instance.
  \<^item> \<open>trees_fixed\<close>: \<^verbatim>\<open>inflate_trees_fixed(&bl, &bd, &tl, &td)\<close>;
  \<^item> \<open>trees_bits l bb\<close>: \<^verbatim>\<open>inflate_trees_bits(blens, &bb, &tb, z)\<close>, an error status
    or the new width and table;
  \<^item> \<open>huft_entry t i\<close>: the \<^verbatim>\<open>(Bits, Base)\<close> fields of entry \<open>i\<close> of table \<open>t\<close>;
  \<^item> \<open>trees_dynamic nl nd l bl bd\<close>: \<^verbatim>\<open>inflate_trees_dynamic\<close>;
  \<^item> \<open>codes_new\<close>: \<^verbatim>\<open>inflate_codes_new\<close>, \<open>None\<close> on allocation failure;
  \<^item> \<open>codes_run\<close>: \<^verbatim>\<open>inflate_codes(s, z, r)\<close>, which works on the bit buffer, the
    window and the stream and returns a status.
\<close>

record ('t, 'c) env =
  zalloc_ok :: "alloc_req \<Rightarrow> bool"
  trees_fixed :: "nat \<times> nat \<times> 't \<times> 't"
  trees_bits :: "nat list \<Rightarrow> nat \<Rightarrow> zstatus + nat \<times> 't"
  huft_entry :: "'t \<Rightarrow> nat \<Rightarrow> nat \<times> nat"
  trees_dynamic :: "nat \<Rightarrow> nat \<Rightarrow> nat list \<Rightarrow> nat \<Rightarrow> nat \<Rightarrow> zstatus + nat \<times> nat \<times> 't \<times> 't"
  codes_new :: "nat \<Rightarrow> nat \<Rightarrow> 't \<Rightarrow> 't \<Rightarrow> 'c option"
  codes_run :: "'c \<Rightarrow> window_st \<Rightarrow> z_stream \<Rightarrow> zstatus \<Rightarrow> zstatus \<times> 'c \<times> window_st \<times> z_stream"

lemma bit_frame_blocks:
  assumes h: "bit_frame s' = bit_frame (s :: ('t, 'c) blocks_state)"
  shows "mode s' = mode s \<and> last_blk s' = last_blk s \<and> left s' = left s \<and>
         table s' = table s \<and> index s' = index s \<and> blens s' = blens s \<and> bb s' = bb s \<and>
         tb s' = tb s \<and> codes s' = codes s \<and> window s' = window s \<and>
         wread s' = wread s \<and> wwrite s' = wwrite s \<and> checkfn s' = checkfn s \<and>
         check s' = check s"
  using arg_cong [OF h, of mode] arg_cong [OF h, of last_blk] arg_cong [OF h, of left]
    arg_cong [OF h, of table] arg_cong [OF h, of index] arg_cong [OF h, of blens]
    arg_cong [OF h, of bb] arg_cong [OF h, of tb] arg_cong [OF h, of codes]
    arg_cong [OF h, of window] arg_cong [OF h, of wread] arg_cong [OF h, of wwrite]
    arg_cong [OF h, of checkfn] arg_cong [OF h, of check]
  by (simp add: bit_frame_def)

lemma win_frame_blocks:
  assumes h: "win_frame s' = win_frame (s :: ('t, 'c) blocks_state)"
  shows "mode s' = mode s \<and> last_blk s' = last_blk s \<and> left s' = left s \<and>
         table s' = table s \<and> index s' = index s \<and> blens s' = blens s \<and> bb s' = bb s \<and>
         tb s' = tb s \<and> codes s' = codes s \<and> bitb s' = bitb s \<and> bitk s' = bitk s \<and>
         window s' = window s \<and> checkfn s' = checkfn s"
  using arg_cong [OF h, of mode] arg_cong [OF h, of last_blk] arg_cong [OF h, of left]
    arg_cong [OF h, of table] arg_cong [OF h, of index] arg_cong [OF h, of blens]
    arg_cong [OF h, of bb] arg_cong [OF h, of tb] arg_cong [OF h, of codes]
    arg_cong [OF h, of bitb] arg_cong [OF h, of bitk] arg_cong [OF h, of window]
    arg_cong [OF h, of checkfn]
  by (simp add: win_frame_def)

text \<open>
  The abstract views of the bit buffer and the window do not see the fields the
  block decoder adds.
\<close>

lemma views_blocks_upd [simp]:
  "\<And>x. pending (s\<lparr>mode := x\<rparr>) = pending s" "\<And>x. wf_window (s\<lparr>mode := x\<rparr>) = wf_window s"
  "\<And>x. stream (s\<lparr>mode := x\<rparr>) z = stream s z" "\<And>x. clean (s\<lparr>mode := x\<rparr>) = clean s"
  "\<And>x. pending (s\<lparr>last_blk := x\<rparr>) = pending s" "\<And>x. wf_window (s\<lparr>last_blk := x\<rparr>) = wf_window s"
  "\<And>x. stream (s\<lparr>last_blk := x\<rparr>) z = stream s z" "\<And>x. clean (s\<lparr>last_blk := x\<rparr>) = clean s"
  "\<And>x. pending (s\<lparr>left := x\<rparr>) = pending s" "\<And>x. wf_window (s\<lparr>left := x\<rparr>) = wf_window s"
  "\<And>x. stream (s\<lparr>left := x\<rparr>) z = stream s z" "\<And>x. clean (s\<lparr>left := x\<rparr>) = clean s"
  "\<And>x. pending (s\<lparr>table := x\<rparr>) = pending s" "\<And>x. wf_window (s\<lparr>table := x\<rparr>) = wf_window s"
  "\<And>x. stream (s\<lparr>table := x\<rparr>) z = stream s z" "\<And>x. clean (s\<lparr>table := x\<rparr>) = clean s"
  "\<And>x. pending (s\<lparr>index := x\<rparr>) = pending s" "\<And>x. wf_window (s\<lparr>index := x\<rparr>) = wf_window s"
  "\<And>x. stream (s\<lparr>index := x\<rparr>) z = stream s z" "\<And>x. clean (s\<lparr>index := x\<rparr>) = clean s"
  "\<And>x. pending (s\<lparr>blens := x\<rparr>) = pending s" "\<And>x. wf_window (s\<lparr>blens := x\<rparr>) = wf_window s"
  "\<And>x. stream (s\<lparr>blens := x\<rparr>) z = stream s z" "\<And>x. clean (s\<lparr>blens := x\<rparr>) = clean s"
  "\<And>x. pending (s\<lparr>bb := x\<rparr>) = pending s" "\<And>x. wf_window (s\<lparr>bb := x\<rparr>) = wf_window s"
  "\<And>x. stream (s\<lparr>bb := x\<rparr>) z = stream s z" "\<And>x. clean (s\<lparr>bb := x\<rparr>) = clean s"
  "\<And>x. pending (s\<lparr>tb := x\<rparr>) = pending s" "\<And>x. wf_window (s\<lparr>tb := x\<rparr>) = wf_window s"
  "\<And>x. stream (s\<lparr>tb := x\<rparr>) z = stream s z" "\<And>x. clean (s\<lparr>tb := x\<rparr>) = clean s"
  "\<And>x. pending (s\<lparr>codes := x\<rparr>) = pending s" "\<And>x. wf_window (s\<lparr>codes := x\<rparr>) = wf_window s"
  "\<And>x. stream (s\<lparr>codes := x\<rparr>) z = stream s z" "\<And>x. clean (s\<lparr>codes := x\<rparr>) = clean s"
  by (simp_all add: pending_def wf_window_def stream_def pending_bits_def clean_def)

lemma dumpbits_blocks [simp]:
  "mode (dumpbits j s) = mode s" "last_blk (dumpbits j s) = last_blk s"
  "left (dumpbits j s) = left s" "table (dumpbits j s) = table s"
  "index (dumpbits j s) = index s" "blens (dumpbits j s) = blens s"
  "bb (dumpbits j s) = bb s" "tb (dumpbits j s) = tb s" "codes (dumpbits j s) = codes s"
  "window (dumpbits j s) = window s" "wread (dumpbits j s) = wread s"
  "wwrite (dumpbits j s) = wwrite s" "checkfn (dumpbits j s) = checkfn s"
  "check (dumpbits j s) = check s"
  by (simp_all add: dumpbits_def)

text \<open>\<^verbatim>\<open>border[]\<close>: the order of the bit length code lengths.\<close>

definition border :: "nat list" where
  "border = [16, 17, 18, 0, 8, 7, 9, 6, 10, 5, 11, 4, 12, 3, 13, 2, 14, 1, 15]"

text \<open>
  The header word \<^verbatim>\<open>t = s->sub.trees.table\<close>: \<^verbatim>\<open>t & 0x1f\<close> is \<open>t mod 32\<close>,
  \<^verbatim>\<open>(t >> 5) & 0x1f\<close> is \<open>t div 32 mod 32\<close>, \<^verbatim>\<open>t >> 10\<close> is \<open>t div 1024\<close>.
  \<open>dtree_total t\<close> is the bound \<^verbatim>\<open>258 + (t & 0x1f) + ((t >> 5) & 0x1f)\<close> of
  the \<^verbatim>\<open>DTREE\<close> loop.
\<close>

definition dtree_total :: "nat \<Rightarrow> nat" where
  "dtree_total t = 258 + t mod 32 + t div 32 mod 32"

subsection \<open>The modes\<close>

text \<open>\<^verbatim>\<open>case TYPE\<close> (lines 108--147).\<close>

definition type_step ::
  "('t, 'c) env \<Rightarrow> zstatus \<Rightarrow> ('t, 'c) blocks_state \<Rightarrow> z_stream \<Rightarrow> ('t, 'c) blocks_state flow" where
  "type_step env r s z =
     (case needbits 3 r s z of
        Leave r s z \<Rightarrow> Leave r s z
      | Cont r s z \<Rightarrow>
          (let t = unat (bitb s AND 7); s = s\<lparr>last_blk := odd t\<rparr>
           in if t div 2 = 0 then
                (let s = dumpbits 3 s; s = dumpbits (bitk s mod 8) s
                 in Cont r (s\<lparr>mode := LENS\<rparr>) z)
              else if t div 2 = 1 then
                (let (bl, bd, ltab, dtab) = trees_fixed env;
                     s = s\<lparr>codes := codes_new env bl bd ltab dtab\<rparr>
                 in if codes s = None then Leave Z_MEM_ERROR s z
                    else Cont r ((dumpbits 3 s)\<lparr>mode := CODES\<rparr>) z)
              else if t div 2 = 2 then Cont r ((dumpbits 3 s)\<lparr>mode := TABLE\<rparr>) z
              else Leave Z_DATA_ERROR ((dumpbits 3 s)\<lparr>mode := INF_ERROR\<rparr>)
                     (z\<lparr>msg := ''invalid block type''\<rparr>)))"

text \<open>\<^verbatim>\<open>case LENS\<close> (lines 148--160). The complement test is on the 32-bit \<^verbatim>\<open>b\<close>.\<close>

definition lens_step ::
  "zstatus \<Rightarrow> ('t, 'c) blocks_state \<Rightarrow> z_stream \<Rightarrow> ('t, 'c) blocks_state flow" where
  "lens_step r s z =
     (case needbits 32 r s z of
        Leave r s z \<Rightarrow> Leave r s z
      | Cont r s z \<Rightarrow>
          (if drop_bit 16 (NOT (bitb s)) \<noteq> bitb s AND 0xFFFF then
             Leave Z_DATA_ERROR (s\<lparr>mode := INF_ERROR\<rparr>) (z\<lparr>msg := ''invalid stored block lengths''\<rparr>)
           else
             (let s = s\<lparr>bitk := 0\<rparr>;
                  s = s\<lparr>left := ucast (bitb s AND 0xFFFF)\<rparr>
              in Cont r (s\<lparr>mode := if left s \<noteq> 0 then STORED else TYPE_M\<rparr>) z)))"

text \<open>
  \<^verbatim>\<open>case STORED\<close> (lines 161--168):
  \<^verbatim>\<open>do { NEEDBYTE NEEDOUT OUTBYTE(NEXTBYTE) } while (--s->sub.left);\<close>.
  Every pass takes one input byte, which is the termination measure.
\<close>

function stored_copy ::
  "zstatus \<Rightarrow> ('t, 'c) blocks_state \<Rightarrow> z_stream \<Rightarrow> ('t, 'c) blocks_state flow" where
  "stored_copy r s z =
     (if avail_in z = 0 then Leave r s z
      else
        (case needout Z_OK s z of
           Leave r s z \<Rightarrow> Leave r s z
         | Cont r s z \<Rightarrow>
             (let (c, z) = nextbyte z; s = outbyte c s; s = s\<lparr>left := left s - 1\<rparr>
              in if left s \<noteq> 0 then stored_copy r s z
                 else Cont r (s\<lparr>mode := if last_blk s then DRY else TYPE_M\<rparr>) z)))"
  by pat_completeness auto
termination
  by (relation "measure (\<lambda>(r, s, z). avail_in z)")
     (auto simp: nextbyte_def avail_in_def dest!: needout_Cont_in [unfolded avail_in_def])

declare stored_copy.simps [simp del]

text \<open>\<^verbatim>\<open>case TABLE\<close> (lines 169--191), with \<^verbatim>\<open>PKZIP_BUG_WORKAROUND\<close> undefined.\<close>

definition table_step ::
  "('t, 'c) env \<Rightarrow> zstatus \<Rightarrow> ('t, 'c) blocks_state \<Rightarrow> z_stream \<Rightarrow> ('t, 'c) blocks_state flow" where
  "table_step env r s z =
     (case needbits 14 r s z of
        Leave r s z \<Rightarrow> Leave r s z
      | Cont r s z \<Rightarrow>
          (let t = unat (bitb s AND 0x3FFF); s = s\<lparr>table := t\<rparr>
           in if 29 < t mod 32 \<or> 29 < t div 32 mod 32 then
                Leave Z_DATA_ERROR (s\<lparr>mode := INF_ERROR\<rparr>)
                  (z\<lparr>msg := ''too many length or distance symbols''\<rparr>)
              else
                (let n = 258 + t mod 32 + t div 32 mod 32; n = (if n < 19 then 19 else n)
                 in if \<not> zalloc_ok env (Blens_buf n) then Leave Z_MEM_ERROR s z
                    else Cont r ((dumpbits 14 s)\<lparr>blens := Some (replicate n 0), index := 0,
                                                  mode := BTREE\<rparr>) z)))"

text \<open>
  \<^verbatim>\<open>case BTREE\<close> (lines 192--212). First loop: read \<^verbatim>\<open>4 + (table >> 10)\<close> 3-bit
  lengths into \<^verbatim>\<open>blens[border[index++]]\<close>; second loop: zero the remaining
  positions of \<^verbatim>\<open>border\<close> up to 19; then build the bit-length tree.
\<close>

function btree_read ::
  "zstatus \<Rightarrow> ('t, 'c) blocks_state \<Rightarrow> z_stream \<Rightarrow> ('t, 'c) blocks_state flow" where
  "btree_read r s z =
     (if index s < 4 + table s div 1024 then
        (case needbits 3 r s z of
           Leave r s z \<Rightarrow> Leave r s z
         | Cont r s z \<Rightarrow>
             btree_read r
               (dumpbits 3 (s\<lparr>blens := map_option (\<lambda>l. l[border ! index s := unat (bitb s AND 7)]) (blens s),
                              index := Suc (index s)\<rparr>)) z)
      else Cont r s z)"
  by pat_completeness auto
termination
  by (relation "measure (\<lambda>(r, s, z). 4 + table s div 1024 - index s)")
     (auto simp: dumpbits_def dest!: needbits_Cont_frame bit_frame_blocks)

declare btree_read.simps [simp del]

function btree_zero :: "nat \<Rightarrow> nat list \<Rightarrow> nat \<times> nat list" where
  "btree_zero i l = (if i < 19 then btree_zero (Suc i) (l[border ! i := 0]) else (i, l))"
  by pat_completeness auto
termination
  by (relation "measure (\<lambda>(i, l). 19 - i)") auto

declare btree_zero.simps [simp del]

definition btree_step ::
  "('t, 'c) env \<Rightarrow> zstatus \<Rightarrow> ('t, 'c) blocks_state \<Rightarrow> z_stream \<Rightarrow> ('t, 'c) blocks_state flow" where
  "btree_step env r s z =
     (case btree_read r s z of
        Leave r s z \<Rightarrow> Leave r s z
      | Cont r s z \<Rightarrow>
          (let (i, l) = btree_zero (index s) (the (blens s));
               s = s\<lparr>index := i, blens := Some l, bb := 7\<rparr>
           in case trees_bits env l 7 of
                Inl t \<Rightarrow> Leave t (if t = Z_DATA_ERROR then s\<lparr>mode := INF_ERROR\<rparr> else s) z
              | Inr (bb', tb') \<Rightarrow>
                  Cont r (s\<lparr>bb := bb', tb := Some tb', index := 0, mode := DTREE\<rparr>) z))"

text \<open>
  \<^verbatim>\<open>do { blens[i++] = c; } while (--j);\<close> of the repeat codes; it is entered with
  \<open>j \<ge> 3\<close> only.
\<close>

fun repeat_fill :: "nat list \<Rightarrow> nat \<Rightarrow> nat \<Rightarrow> nat \<Rightarrow> nat list" where
  "repeat_fill l i 0 c = l"
| "repeat_fill l i (Suc j) c = repeat_fill (l[i := c]) (Suc i) j c"

text \<open>
  \<^verbatim>\<open>case DTREE\<close> (lines 213--284), the loop of lines 214--254: decode one
  code-length symbol with the bit-length tree, store a literal length or expand a
  repeat code (16: copy the previous length 3--6 times, 17: 3--10 zeros, 18: 11--138
  zeros), rejecting a repeat that overruns the total or a 16 at the first position.
\<close>

function dtree_read ::
  "('t, 'c) env \<Rightarrow> zstatus \<Rightarrow> ('t, 'c) blocks_state \<Rightarrow> z_stream \<Rightarrow> ('t, 'c) blocks_state flow" where
  "dtree_read env r s z =
     (if index s < dtree_total (table s) then
        (case needbits (bb s) r s z of
           Leave r s z \<Rightarrow> Leave r s z
         | Cont r s z \<Rightarrow>
             (let (t, c) = huft_entry env (the (tb s)) (unat (bitb s AND mask (bb s)))
              in if c < 16 then
                   dtree_read env r
                     ((dumpbits t s)\<lparr>blens := map_option (\<lambda>l. l[index s := c]) (blens s),
                                     index := Suc (index s)\<rparr>) z
                 else
                   (let i = (if c = 18 then 7 else c - 14); j = (if c = 18 then 11 else 3)
                    in case needbits (t + i) r s z of
                         Leave r s z \<Rightarrow> Leave r s z
                       | Cont r s z \<Rightarrow>
                           (let s = dumpbits t s; j = j + unat (bitb s AND mask i);
                                s = dumpbits i s; i = index s
                            in if dtree_total (table s) < i + j \<or> (c = 16 \<and> i < 1) then
                                 Leave Z_DATA_ERROR (s\<lparr>mode := INF_ERROR\<rparr>)
                                   (z\<lparr>msg := ''invalid bit length repeat''\<rparr>)
                               else
                                 (let c = (if c = 16 then the (blens s) ! (i - 1) else 0)
                                  in dtree_read env r
                                       (s\<lparr>blens := map_option (\<lambda>l. repeat_fill l i j c) (blens s),
                                          index := i + j\<rparr>) z)))))
      else Cont r s z)"
  by pat_completeness auto
termination
  by (relation "measure (\<lambda>(env, r, s, z). dtree_total (table s) - index s)")
     (auto simp: dumpbits_def dest!: needbits_Cont_frame bit_frame_blocks)

declare dtree_read.simps [simp del]

text \<open>
  The rest of \<^verbatim>\<open>case DTREE\<close>: free the bit-length tree, build the literal/length and
  distance tables from the two parts of \<^verbatim>\<open>blens\<close>, start a codes decoder on them,
  free \<^verbatim>\<open>blens\<close>.
\<close>

definition dtree_step ::
  "('t, 'c) env \<Rightarrow> zstatus \<Rightarrow> ('t, 'c) blocks_state \<Rightarrow> z_stream \<Rightarrow> ('t, 'c) blocks_state flow" where
  "dtree_step env r s z =
     (case dtree_read env r s z of
        Leave r s z \<Rightarrow> Leave r s z
      | Cont r s z \<Rightarrow>
          (let s = s\<lparr>tb := None\<rparr>; t = table s
           in case trees_dynamic env (257 + t mod 32) (1 + t div 32 mod 32) (the (blens s)) 9 6 of
                Inl e \<Rightarrow> Leave e (if e = Z_DATA_ERROR then s\<lparr>mode := INF_ERROR\<rparr> else s) z
              | Inr (bl, bd, ltab, dtab) \<Rightarrow>
                  (case codes_new env bl bd ltab dtab of
                     None \<Rightarrow> Leave Z_MEM_ERROR s z
                   | Some c \<Rightarrow> Cont r (s\<lparr>blens := None, codes := Some c, mode := CODES\<rparr>) z)))"

text \<open>
  \<^verbatim>\<open>case CODES\<close> (lines 285--304): run the codes decoder; on anything but
  \<^verbatim>\<open>Z_STREAM_END\<close> flush and return its status; at the end of the block free the
  decoder and go to \<^verbatim>\<open>TYPE\<close>, or, after the last block, hand one unused whole byte
  back to the input and go to \<^verbatim>\<open>DRY\<close>.
\<close>

definition codes_step ::
  "('t, 'c) env \<Rightarrow> zstatus \<Rightarrow> ('t, 'c) blocks_state \<Rightarrow> z_stream \<Rightarrow> ('t, 'c) blocks_state flow" where
  "codes_step env r s z =
     (let (r, c, w, z) = codes_run env (the (codes s)) (io_of s) z r;
          s = (with_io w s)\<lparr>codes := Some c\<rparr>
      in if r \<noteq> Z_STREAM_END then Leave r s z
         else
           (let s = s\<lparr>codes := None\<rparr>
            in if \<not> last_blk s then Cont Z_OK (s\<lparr>mode := TYPE_M\<rparr>) z
               else
                 (let (s, z) = (if 7 < bitk s
                                then (s\<lparr>bitk := bitk s - 8\<rparr>,
                                      z\<lparr>pos_in := pos_in z - 1, total_in := total_in z - 1\<rparr>)
                                else (s, z))
                  in Cont Z_OK (s\<lparr>mode := DRY\<rparr>) z)))"

text \<open>\<^verbatim>\<open>case DRY\<close> (lines 305--309): flush; stay in \<^verbatim>\<open>DRY\<close> until the window is empty.\<close>

definition dry_step ::
  "zstatus \<Rightarrow> ('t, 'c) blocks_state \<Rightarrow> z_stream \<Rightarrow> ('t, 'c) blocks_state flow" where
  "dry_step r s z =
     (let (r, s, z) = inflate_flush r s z
      in if wread s \<noteq> wwrite s then Leave r s z else Cont r (s\<lparr>mode := DONE\<rparr>) z)"

subsection \<open>The loop\<close>

text \<open>
  One pass of \<^verbatim>\<open>while (1) switch (s->mode)\<close>. A C fall-through into the next
  case, after the mode has been set, is a further pass here. \<^verbatim>\<open>DONE\<close> returns
  \<^verbatim>\<open>Z_STREAM_END\<close> and \<^verbatim>\<open>INF_ERROR\<close> \<^verbatim>\<open>Z_DATA_ERROR\<close> on every entry
  (lines 310--315); the \<^verbatim>\<open>default\<close> case is unreachable with the modes of the type.
\<close>

definition blocks_step ::
  "('t, 'c) env \<Rightarrow> zstatus \<Rightarrow> ('t, 'c) blocks_state \<Rightarrow> z_stream \<Rightarrow> ('t, 'c) blocks_state flow" where
  "blocks_step env r s z =
     (case mode s of
        TYPE_M \<Rightarrow> type_step env r s z
      | LENS \<Rightarrow> lens_step r s z
      | STORED \<Rightarrow> stored_copy r s z
      | TABLE \<Rightarrow> table_step env r s z
      | BTREE \<Rightarrow> btree_step env r s z
      | DTREE \<Rightarrow> dtree_step env r s z
      | CODES \<Rightarrow> codes_step env r s z
      | DRY \<Rightarrow> dry_step r s z
      | DONE \<Rightarrow> Leave Z_STREAM_END s z
      | INF_ERROR \<Rightarrow> Leave Z_DATA_ERROR s z)"

text \<open>
  \<^verbatim>\<open>inflate_blocks\<close> (lines 89--320): passes until one leaves, then
  \<^verbatim>\<open>return inflate_flush(s, z, r)\<close>. \<open>None\<close> would be a call that never returns;
  the theory \<open>Blocks_Termination\<close> shows it does not happen.
\<close>

partial_function (option) blocks_loop ::
  "('t, 'c) env \<Rightarrow> zstatus \<Rightarrow> ('t, 'c) blocks_state \<Rightarrow> z_stream
     \<Rightarrow> (zstatus \<times> ('t, 'c) blocks_state \<times> z_stream) option" where
  "blocks_loop env r s z =
     (case blocks_step env r s z of
        Leave r s z \<Rightarrow> Some (inflate_flush r s z)
      | Cont r s z \<Rightarrow> blocks_loop env r s z)"

definition inflate_blocks ::
  "('t, 'c) env \<Rightarrow> ('t, 'c) blocks_state \<Rightarrow> z_stream \<Rightarrow> zstatus
     \<Rightarrow> (zstatus \<times> ('t, 'c) blocks_state \<times> z_stream) option" where
  "inflate_blocks env s z r = blocks_loop env r s z"

subsection \<open>Creation and release\<close>

text \<open>
  \<^verbatim>\<open>inflate_blocks_new\<close> (lines 63--86). \<^verbatim>\<open>ZALLOC\<close> is \<^verbatim>\<open>zcalloc\<close>, so the
  fields the function does not set, and the window, are zero.
\<close>

definition inflate_blocks_new ::
  "(alloc_req \<Rightarrow> bool) \<Rightarrow> (uLong \<Rightarrow> byte list \<Rightarrow> uLong) option \<Rightarrow> nat
     \<Rightarrow> ('t, 'c) blocks_state option" where
  "inflate_blocks_new za c w =
     (if \<not> za State_struct then None
      else if \<not> za (Window_buf w) then None
      else Some \<lparr>bitb = 0, bitk = 0, window = replicate w 0, wread = 0, wwrite = 0,
                 checkfn = c, check = (case c of None \<Rightarrow> 0 | Some f \<Rightarrow> f 0 []),
                 mode = TYPE_M, last_blk = False, left = 0, table = 0, index = 0,
                 blens = None, bb = 0, tb = None, codes = None\<rparr>)"

datatype resource = Res_blens | Res_tb | Res_codes | Res_window | Res_state

text \<open>
  \<^verbatim>\<open>inflate_blocks_free\<close> (lines 323--337): the check value it stores through
  \<^verbatim>\<open>c\<close> (when there is a check function) and the objects it releases.
\<close>

definition inflate_blocks_free ::
  "('t, 'c) blocks_state \<Rightarrow> uLong option \<times> resource set" where
  "inflate_blocks_free s =
     ((case checkfn s of None \<Rightarrow> None | Some f \<Rightarrow> Some (check s)),
      (if mode s = BTREE \<or> mode s = DTREE then {Res_blens} else {}) \<union>
      (if mode s = CODES then {Res_codes} else {}) \<union> {Res_window, Res_state})"

text \<open>The objects a state owns.\<close>

definition owned :: "('t, 'c) blocks_state \<Rightarrow> resource set" where
  "owned s =
     (if blens s \<noteq> None then {Res_blens} else {}) \<union> (if tb s \<noteq> None then {Res_tb} else {}) \<union>
     (if codes s \<noteq> None then {Res_codes} else {}) \<union> {Res_window, Res_state}"

end
