(* ===== verification/Steps.thy ===== *)
theory Steps
  imports Blocks
begin

text \<open>
  Behaviour of the single-pass cases of \<^verbatim>\<open>inflate_blocks\<close> (\<^verbatim>\<open>src/infblock.c\<close>)
  in terms of the abstract views of the bit buffer (\<open>stream\<close>: the bits still to be
  decoded) and of the window (\<open>pending\<close>: the bytes not yet delivered): block-header
  dispatch (\<^verbatim>\<open>TYPE\<close>), stored lengths (\<^verbatim>\<open>LENS\<close>), the stored copy
  (\<^verbatim>\<open>STORED\<close>), the end of a block (\<^verbatim>\<open>CODES\<close>) and draining (\<^verbatim>\<open>DRY\<close>).
\<close>

unbundle bit_operations_syntax

lemma pending_Nil_iff: "wf_window s \<Longrightarrow> pending s = [] \<longleftrightarrow> wread s = wwrite s"
  by (auto simp: pending_def wf_window_def slice_def)

lemma inflate_flush_blocks:
  "inflate_flush r s z = (r', s', z') \<Longrightarrow> mode s' = mode (s :: ('t, 'c) blocks_state)"
  by (drule inflate_flush_frame) (drule win_frame_blocks, blast)

text \<open>
  C2. \<^verbatim>\<open>case DRY\<close> delivers the first \<^verbatim>\<open>avail_out\<close> pending window bytes to the
  caller in order and keeps the rest; it moves to \<^verbatim>\<open>DONE\<close> and continues exactly when
  the window has been emptied, and otherwise returns in \<^verbatim>\<open>DRY\<close>.
\<close>

theorem dry_step_delivers:
  assumes "wf_window s" "mode s = DRY"
  shows "out (flow_z (dry_step r s z)) = out z @ take (avail_out z) (pending s) \<and>
         pending (flow_s (dry_step r s z)) = drop (avail_out z) (pending s) \<and>
         mode (flow_s (dry_step r s z)) = (if length (pending s) \<le> avail_out z then DONE else DRY) \<and>
         flow_cont (dry_step r s z) = (length (pending s) \<le> avail_out z)"
proof -
  obtain r' s' z' where fl: "inflate_flush r s z = (r', s', z')" by (metis prod_cases3)
  note ref = inflate_flush_refines [OF assms(1) fl]
  have md: "mode s' = DRY" using inflate_flush_blocks [OF fl] assms(2) by simp
  have eq: "wread s' = wwrite s' \<longleftrightarrow> length (pending s) \<le> avail_out z"
    using ref pending_Nil_iff [of s'] by simp
  show ?thesis
  proof (cases "length (pending s) \<le> avail_out z")
    case True
    with eq have "dry_step r s z = Cont r' (s'\<lparr>mode := DONE\<rparr>) z'"
      by (simp add: dry_step_def fl)
    with True ref show ?thesis by simp
  next
    case False
    with eq have "dry_step r s z = Leave r' s' z'"
      by (simp add: dry_step_def fl)
    with False ref md show ?thesis by simp
  qed
qed


lemma dumpbits_upd_codes [simp]:
  "dumpbits j (s\<lparr>codes := x\<rparr>) = (dumpbits j s)\<lparr>codes := x\<rparr>"
  by (simp add: dumpbits_def)

lemma needbits_enough:
  assumes "clean s" "j \<le> 25 \<or> (8 dvd bitk s \<and> j \<le> 32)" "j \<le> length (stream s z)"
  obtains r' s' z' where "needbits j r s z = Cont r' s' z'" "stream s' z' = stream s z"
    "clean s'" "j \<le> bitk s'" "bit_frame s' = bit_frame s"
proof (cases "needbits j r s z")
  case (Cont r' s' z')
  have "stream s' z' = stream s z \<and> clean s'"
    using needbits_stream [OF assms(1,2), of r z] Cont by simp
  moreover have "j \<le> bitk s'" by (rule needbits_Cont [OF Cont])
  moreover have "bit_frame s' = bit_frame s" using needbits_frame [of j r s z] Cont by simp
  ultimately show ?thesis using that [OF Cont] by blast
next
  case (Leave r' s' z')
  with needbits_Leave [OF Leave] needbits_avail [of j r s z] assms(3) show ?thesis
    by (simp add: length_stream)
qed

lemma take3:
  assumes "3 \<le> length xs"
  shows "take 3 xs = [xs ! 0, xs ! 1, xs ! 2]"
proof -
  from assms obtain a b c r where "xs = a # b # c # r"
    by (cases xs; cases "tl xs"; cases "tl (tl xs)") (auto simp: numeral_3_eq_3)
  then show ?thesis by (simp add: numeral_3_eq_3)
qed

lemma peek3:
  assumes "clean s" "3 \<le> bitk s"
  shows "unat (bitb s AND 7) = of_bool (stream s z ! 0) + 2 * of_bool (stream s z ! 1) + 4 * of_bool (stream s z ! 2)"
proof -
  have "unat (bitb s AND 7) = nat_of_bits (take 3 (stream s z))"
    using peekbits_stream [OF assms, of z] by (simp add: peekbits_def mask_eq_exp_minus_1)
  moreover have "length (stream s z) \<ge> 3" using assms(2) by (simp add: length_stream)
  then have "take 3 (stream s z) = [stream s z ! 0, stream s z ! 1, stream s z ! 2]"
    by (rule take3)
  ultimately show ?thesis by simp
qed

text \<open>
  C11. \<^verbatim>\<open>case TYPE\<close> reads the 3-bit block header from the front of the bit stream:
  the first bit is \<^verbatim>\<open>BFINAL\<close>; \<^verbatim>\<open>BTYPE\<close> 00 drops the header and aligns to a
  byte boundary (losing fewer than 8 bits) and goes to \<^verbatim>\<open>LENS\<close>; 01 starts a codes
  decoder on the fixed tables and goes to \<^verbatim>\<open>CODES\<close> after the header, or leaves
  with \<^verbatim>\<open>Z_MEM_ERROR\<close> having consumed nothing; 10 goes to \<^verbatim>\<open>TABLE\<close>; 11 is a
  data error with mode \<^verbatim>\<open>INF_ERROR\<close> and message "invalid block type".
\<close>

theorem type_step_header:
  assumes cl: "clean s" and len: "3 \<le> length (stream s z)"
  shows "let res = type_step env r s z; s' = flow_s res; z' = flow_z res; h = stream s z in
    last_blk s' = h ! 0 \<and>
    (\<not> h ! 1 \<and> \<not> h ! 2 \<longrightarrow> flow_cont res \<and> mode s' = LENS \<and>
        (\<exists>d < 8. stream s' z' = drop (3 + d) h) \<and> 8 dvd length (stream s' z')) \<and>
    (h ! 1 \<and> \<not> h ! 2 \<longrightarrow>
        (flow_cont res \<and> mode s' = CODES \<and> codes s' \<noteq> None \<and> stream s' z' = drop 3 h) \<or>
        (res = Leave Z_MEM_ERROR s' z' \<and> mode s' = mode s \<and> codes s' = None \<and> stream s' z' = h)) \<and>
    (\<not> h ! 1 \<and> h ! 2 \<longrightarrow> flow_cont res \<and> mode s' = TABLE \<and> stream s' z' = drop 3 h) \<and>
    (h ! 1 \<and> h ! 2 \<longrightarrow> res = Leave Z_DATA_ERROR s' z' \<and> mode s' = INF_ERROR \<and>
        msg z' = ''invalid block type'')"
proof -
  let ?h = "stream s z"
  obtain r1 s1 z1 where nb: "needbits 3 r s z = Cont r1 s1 z1" and st1: "stream s1 z1 = ?h"
    and cl1: "clean s1" and k1: "3 \<le> bitk s1" and fr: "bit_frame s1 = bit_frame s"
    by (rule needbits_enough [OF cl _ len, where r = r]) auto
  have md: "mode s1 = mode s" using bit_frame_blocks [OF fr] by simp
  define t where "t = unat (bitb s1 AND 7)"
  have t: "t = of_bool (?h ! 0) + 2 * of_bool (?h ! 1) + 4 * of_bool (?h ! 2)"
    using peek3 [OF cl1 k1, of z1] st1 by (simp add: t_def)
  define s2 where "s2 = s1\<lparr>last_blk := odd t\<rparr>"
  have cl2: "clean s2" and k2: "3 \<le> bitk s2" and st2: "stream s2 z1 = ?h"
    using cl1 k1 st1 by (simp_all add: s2_def)
  have lb: "odd t = ?h ! 0" by (simp add: t)
  have d3: "stream (dumpbits 3 s2) z1 = drop 3 ?h" "clean (dumpbits 3 s2)"
    using dumpbits_stream [OF cl2 k2, of z1] st2 by simp_all
  have ty: "type_step env r s z =
      (if t div 2 = 0 then
         (let s = dumpbits 3 s2; s = dumpbits (bitk s mod 8) s in Cont r1 (s\<lparr>mode := LENS\<rparr>) z1)
       else if t div 2 = 1 then
         (let (bl, bd, ltab, dtab) = trees_fixed env; s = s2\<lparr>codes := codes_new env bl bd ltab dtab\<rparr>
          in if codes s = None then Leave Z_MEM_ERROR s z1
             else Cont r1 ((dumpbits 3 s)\<lparr>mode := CODES\<rparr>) z1)
       else if t div 2 = 2 then Cont r1 ((dumpbits 3 s2)\<lparr>mode := TABLE\<rparr>) z1
       else Leave Z_DATA_ERROR ((dumpbits 3 s2)\<lparr>mode := INF_ERROR\<rparr>)
              (z1\<lparr>msg := ''invalid block type''\<rparr>))"
    by (simp add: type_step_def nb t_def s2_def Let_def)
  have stored: "\<exists>d < 8. stream (dumpbits (bitk (dumpbits 3 s2) mod 8) (dumpbits 3 s2)) z1 = drop (3 + d) ?h \<and>
                   8 dvd length (stream (dumpbits (bitk (dumpbits 3 s2) mod 8) (dumpbits 3 s2)) z1)"
  proof -
    let ?u = "dumpbits 3 s2"
    have "bitk ?u mod 8 \<le> bitk ?u" by simp
    from dumpbits_stream [OF d3(2) this, of z1] d3(1)
    have "stream (dumpbits (bitk ?u mod 8) ?u) z1 = drop (3 + bitk ?u mod 8) ?h"
      by (simp add: add.commute)
    moreover have "8 dvd bitk (dumpbits (bitk ?u mod 8) ?u)"
      by (simp add: dumpbits_def minus_mod_eq_mult_div)
    then have "8 dvd length (stream (dumpbits (bitk ?u mod 8) ?u) z1)"
      unfolding length_stream by simp
    ultimately show ?thesis by (intro exI [of _ "bitk ?u mod 8"]) simp
  qed
  show ?thesis
  proof (cases "?h ! 1"; cases "?h ! 2")
    assume "\<not> ?h ! 1" "\<not> ?h ! 2"
    with stored ty show ?thesis by (auto simp: t lb s2_def Let_def)
  next
    assume "?h ! 1" "\<not> ?h ! 2"
    obtain bl bd lt dt where tf: "trees_fixed env = (bl, bd, lt, dt)" by (metis prod_cases4)
    show ?thesis
    proof (cases "codes_new env bl bd lt dt")
      case None
      with ty st1 md \<open>?h ! 1\<close> \<open>\<not> ?h ! 2\<close> show ?thesis by (simp add: t lb s2_def tf)
    next
      case (Some c)
      with ty d3 \<open>?h ! 1\<close> \<open>\<not> ?h ! 2\<close> show ?thesis by (simp add: t lb s2_def tf Let_def)
    qed
  next
    assume "\<not> ?h ! 1" "?h ! 2"
    with ty d3 show ?thesis by (simp add: t lb s2_def)
  next
    assume "?h ! 1" "?h ! 2"
    with ty show ?thesis by (simp add: t lb s2_def)
  qed
qed

subsection \<open>Stored-block lengths\<close>

lemma mask16_word: "(0xFFFF :: uLong) = mask 16"
  by (simp add: mask_eq_exp_minus_1)

text \<open>The complement test of \<^verbatim>\<open>LENS\<close>, bit by bit.\<close>

lemma stored_lengths_test:
  "(drop_bit 16 (NOT b) = b AND (0xFFFF :: uLong)) \<longleftrightarrow> (\<forall>i < 16. bit b (16 + i) = (\<not> bit b i))"
proof -
  have "(drop_bit 16 (NOT b) = b AND (0xFFFF :: uLong)) \<longleftrightarrow>
        (\<forall>n. bit (drop_bit 16 (NOT b)) n = bit (b AND mask 16) n)"
    unfolding mask16_word by (auto intro: bit_eqI)
  also have "\<dots> \<longleftrightarrow> (\<forall>n. (n < 16 \<and> \<not> bit b (16 + n)) = (n < 16 \<and> bit b n))"
    by (intro all_cong1) (auto simp: bit_drop_bit_eq bit_not_iff bit_and_iff bit_mask_iff)
  also have "\<dots> \<longleftrightarrow> (\<forall>i < 16. bit b (16 + i) = (\<not> bit b i))"
    by auto
  finally show ?thesis .
qed

lemma needbits_32_aligned:
  assumes "clean s" "8 dvd bitk s" "32 \<le> length (stream s z)"
  obtains r' s' z' where "needbits 32 r s z = Cont r' s' z'" "stream s' z' = stream s z"
    "clean s'" "bitk s' = 32" "bit_frame s' = bit_frame s"
proof -
  obtain r' s' z' where "needbits 32 r s z = Cont r' s' z'" "stream s' z' = stream s z"
    "clean s'" "32 \<le> bitk s'" "bit_frame s' = bit_frame s"
    by (rule needbits_enough [OF assms(1) _ assms(3)]) (use assms(2) in auto)
  moreover from \<open>clean s'\<close> have "bitk s' \<le> 32" by (simp add: clean_def)
  ultimately show ?thesis using that by simp
qed

lemma clean_nth_stream:
  "clean s \<Longrightarrow> i < bitk s \<Longrightarrow> stream s z ! i = bit (bitb s) i"
  by (simp add: stream_def pending_bits_def nth_append)

lemma lens_step_accept:
  assumes cl: "clean s" and al: "8 dvd bitk s" and len: "32 \<le> length (stream s z)"
  obtains s1 z1 r1 where
    "bitk s1 = 32" "clean s1" "stream s1 z1 = stream s z" "bit_frame s1 = bit_frame s"
    "lens_step r s z =
       (if \<forall>i < 16. stream s z ! (16 + i) = (\<not> stream s z ! i) then
          Cont r1 (s1\<lparr>bitk := 0, left := ucast (bitb s1 AND 0xFFFF),
                     mode := if bitb s1 AND 0xFFFF \<noteq> 0 then STORED else TYPE_M\<rparr>) z1
        else Leave Z_DATA_ERROR (s1\<lparr>mode := INF_ERROR\<rparr>)
               (z1\<lparr>msg := ''invalid stored block lengths''\<rparr>))"
proof -
  obtain r1 s1 z1 where nb: "needbits 32 r s z = Cont r1 s1 z1" and st: "stream s1 z1 = stream s z"
    and cl1: "clean s1" and k: "bitk s1 = 32" and fr: "bit_frame s1 = bit_frame s"
    by (rule needbits_32_aligned [OF cl al len])
  have "(\<forall>i < 16. bit (bitb s1) (16 + i) = (\<not> bit (bitb s1) i)) \<longleftrightarrow>
        (\<forall>i < 16. stream s z ! (16 + i) = (\<not> stream s z ! i))"
    using clean_nth_stream [OF cl1, of _ z1] k st by auto
  then have "lens_step r s z =
       (if \<forall>i < 16. stream s z ! (16 + i) = (\<not> stream s z ! i) then
          Cont r1 (s1\<lparr>bitk := 0, left := ucast (bitb s1 AND 0xFFFF),
                     mode := if bitb s1 AND 0xFFFF \<noteq> 0 then STORED else TYPE_M\<rparr>) z1
        else Leave Z_DATA_ERROR (s1\<lparr>mode := INF_ERROR\<rparr>)
               (z1\<lparr>msg := ''invalid stored block lengths''\<rparr>))"
    by (simp add: lens_step_def nb stored_lengths_test [symmetric] Let_def)
  with that k cl1 st fr show ?thesis by blast
qed

lemma stream_msg [simp]: "stream s (z\<lparr>msg := m\<rparr>) = stream s z"
  by (simp add: stream_def)

lemma stream_bitk0:
  assumes "clean s" "bitk s = n"
  shows "stream (s\<lparr>bitk := 0, left := l, mode := m\<rparr>) z = drop n (stream s z)"
  using assms by (simp add: stream_def pending_bits_def)

lemma stored_len_bits:
  assumes "clean s" "bitk s = 32"
  shows "unat (ucast (bitb s AND 0xFFFF) :: uLong) = nat_of_bits (take 16 (stream s z))"
proof -
  have "unat (ucast (bitb s AND 0xFFFF) :: uLong) = peekbits 16 s"
    by (simp add: peekbits_def mask_eq_exp_minus_1)
  also have "\<dots> = nat_of_bits (take 16 (stream s z))"
    using assms by (intro peekbits_stream) simp_all
  finally show ?thesis .
qed

text \<open>
  C8. \<^verbatim>\<open>case LENS\<close> on a byte-aligned stream: it accepts exactly when the second
  16 bits of the stream are the bitwise complement of the first 16 (\<^verbatim>\<open>NLEN\<close> is the
  one's complement of \<^verbatim>\<open>LEN\<close>); then \<^verbatim>\<open>left\<close> is \<^verbatim>\<open>LEN\<close> read LSB-first, the mode is
  \<^verbatim>\<open>STORED\<close> or, for \<^verbatim>\<open>LEN = 0\<close>, \<^verbatim>\<open>TYPE\<close>, and the 32 length bits are consumed;
  otherwise it is a data error "invalid stored block lengths" in mode
  \<^verbatim>\<open>INF_ERROR\<close> that consumes nothing of the stream.
\<close>

theorem lens_step_lengths:
  assumes "clean s" "8 dvd bitk s" "32 \<le> length (stream s z)"
  shows "let res = lens_step r s z; s' = flow_s res; z' = flow_z res; h = stream s z in
    if \<forall>i < 16. h ! (16 + i) = (\<not> h ! i) then
      flow_cont res \<and> unat (left s') = nat_of_bits (take 16 h) \<and>
      mode s' = (if nat_of_bits (take 16 h) = 0 then TYPE_M else STORED) \<and>
      stream s' z' = drop 32 h
    else res = Leave Z_DATA_ERROR s' z' \<and> mode s' = INF_ERROR \<and>
      msg z' = ''invalid stored block lengths'' \<and> stream s' z' = h"
proof -
  obtain s1 z1 r1 where k: "bitk s1 = 32" and cl: "clean s1" and st: "stream s1 z1 = stream s z"
    and ls: "lens_step r s z =
       (if \<forall>i < 16. stream s z ! (16 + i) = (\<not> stream s z ! i) then
          Cont r1 (s1\<lparr>bitk := 0, left := ucast (bitb s1 AND 0xFFFF),
                     mode := if bitb s1 AND 0xFFFF \<noteq> 0 then STORED else TYPE_M\<rparr>) z1
        else Leave Z_DATA_ERROR (s1\<lparr>mode := INF_ERROR\<rparr>)
               (z1\<lparr>msg := ''invalid stored block lengths''\<rparr>))"
    by (rule lens_step_accept [OF assms])
  have len: "unat (ucast (bitb s1 AND 0xFFFF) :: uLong) = nat_of_bits (take 16 (stream s z))"
    using stored_len_bits [OF cl k, of z1] st by simp
  have nz: "(bitb s1 AND 0xFFFF \<noteq> 0) = (nat_of_bits (take 16 (stream s z)) \<noteq> 0)"
    using len by (metis unat_eq_zero ucast_id)
  show ?thesis
  proof (cases "\<forall>i < 16. stream s z ! (16 + i) = (\<not> stream s z ! i)")
    case True
    have "stream (s1\<lparr>bitk := 0, left := ucast (bitb s1 AND 0xFFFF),
                     mode := if bitb s1 AND 0xFFFF \<noteq> 0 then STORED else TYPE_M\<rparr>) z1 = drop 32 (stream s z)"
      using stream_bitk0 [OF cl k] st by simp
    with True ls len nz show ?thesis by (simp only: Let_def if_True flow.simps) simp
  next
    case False
    with ls st show ?thesis by (simp only: Let_def if_False flow.simps) simp
  qed
qed

text \<open>
  C10. \<^verbatim>\<open>case LENS\<close> empties the bit count but not the bit buffer: after accepting
  stored lengths, \<^verbatim>\<open>k = 0\<close> while \<^verbatim>\<open>b\<close> still holds \<^verbatim>\<open>LEN\<close> and \<^verbatim>\<open>NLEN\<close>, which is
  never zero, so the buffer is no longer clean and the next \<^verbatim>\<open>NEEDBITS\<close> ORs new
  input bytes into stale bits.
\<close>

theorem lens_step_stale_bits:
  assumes "clean s" "8 dvd bitk s" "32 \<le> length (stream s z)" "flow_cont (lens_step r s z)"
  shows "bitk (flow_s (lens_step r s z)) = 0 \<and> bitb (flow_s (lens_step r s z)) \<noteq> 0 \<and>
         \<not> clean (flow_s (lens_step r s z))"
proof -
  obtain s1 z1 r1 where k: "bitk s1 = 32" and cl: "clean s1" and st: "stream s1 z1 = stream s z"
    and ls: "lens_step r s z =
       (if \<forall>i < 16. stream s z ! (16 + i) = (\<not> stream s z ! i) then
          Cont r1 (s1\<lparr>bitk := 0, left := ucast (bitb s1 AND 0xFFFF),
                     mode := if bitb s1 AND 0xFFFF \<noteq> 0 then STORED else TYPE_M\<rparr>) z1
        else Leave Z_DATA_ERROR (s1\<lparr>mode := INF_ERROR\<rparr>)
               (z1\<lparr>msg := ''invalid stored block lengths''\<rparr>))"
    by (rule lens_step_accept [OF assms(1-3)])
  from assms(4) ls have acc: "\<forall>i < 16. stream s z ! (16 + i) = (\<not> stream s z ! i)"
    by (auto split: if_splits)
  then have "bit (bitb s1) 16 = (\<not> bit (bitb s1) 0)"
    using acc [rule_format, of 0] clean_nth_stream [OF cl, of 16 z1] clean_nth_stream [OF cl, of 0 z1] k st
    by simp
  then have "bitb s1 \<noteq> 0" by (cases "bitb s1 = 0") simp_all
  moreover obtain l m where "flow_s (lens_step r s z) = s1\<lparr>bitk := 0, left := l, mode := m\<rparr>"
    by (rule that) (simp only: ls if_P [OF acc] flow_s.simps)
  ultimately show ?thesis by (simp add: clean_def)
qed

subsection \<open>Examples\<close>

definition ex_env :: "(unit, unit) env" where
  "ex_env = \<lparr>zalloc_ok = \<lambda>_. True, trees_fixed = (9, 5, (), ()), trees_bits = \<lambda>_ _. Inr (7, ()),
     huft_entry = \<lambda>_ _. (1, 0), trees_dynamic = \<lambda>_ _ _ _ _. Inr (9, 6, (), ()),
     codes_new = \<lambda>_ _ _ _. Some (), codes_run = \<lambda>c w z r. (Z_STREAM_END, c, w, z)\<rparr>"

definition ex_state :: "block_mode \<Rightarrow> (unit, unit) blocks_state" where
  "ex_state m = \<lparr>bitb = 0, bitk = 0, window = [1, 2, 3, 4], wread = 3, wwrite = 1,
     checkfn = None, check = 0, mode = m, last_blk = False, left = 0, table = 0, index = 0,
     blens = None, bb = 0, tb = None, codes = None\<rparr>"

definition ex_in :: "byte list \<Rightarrow> nat \<Rightarrow> z_stream" where
  "ex_in bs a = \<lparr>next_in = bs, pos_in = 0, total_in = 0, out = [9], avail_out = a,
     total_out = 0, msg = []\<rparr>"

theorem dry_step_delivers_witness:
  "out (flow_z (dry_step Z_OK (ex_state DRY) (ex_in [] 1))) = [9, 4] \<and>
   mode (flow_s (dry_step Z_OK (ex_state DRY) (ex_in [] 1))) = DRY \<and>
   \<not> flow_cont (dry_step Z_OK (ex_state DRY) (ex_in [] 1))"
proof -
  have "wf_window (ex_state DRY)" "mode (ex_state DRY) = DRY"
    by (simp_all add: ex_state_def wf_window_def)
  from dry_step_delivers [OF this, of Z_OK "ex_in [] 1"] show ?thesis
    by (simp add: ex_state_def ex_in_def pending_def slice_def)
qed

theorem type_step_header_witness:
  "last_blk (flow_s (type_step ex_env Z_OK (ex_state TYPE_M) (ex_in [3, 0] 0))) \<and>
   mode (flow_s (type_step ex_env Z_OK (ex_state TYPE_M) (ex_in [3, 0] 0))) \<in> {CODES, TYPE_M}"
proof -
  have "clean (ex_state TYPE_M)" "3 \<le> length (stream (ex_state TYPE_M) (ex_in [3, 0] 0))"
    by (simp_all add: ex_state_def clean_def length_stream ex_in_def avail_in_def)
  moreover have "stream (ex_state TYPE_M) (ex_in [3, 0] 0) ! 0"
    "stream (ex_state TYPE_M) (ex_in [3, 0] 0) ! 1" "\<not> stream (ex_state TYPE_M) (ex_in [3, 0] 0) ! 2"
    by (simp_all add: stream_def ex_state_def pending_bits_def ex_in_def rest_in_def bits_of_byte_def nth_append)
  moreover have "mode (ex_state TYPE_M) = TYPE_M" by (simp add: ex_state_def)
  ultimately show ?thesis
    using type_step_header [of "ex_state TYPE_M" "ex_in [3, 0] 0" ex_env Z_OK] by (auto simp: Let_def)
qed

lemma all_less_num: "(\<forall>i < numeral k. P i) \<longleftrightarrow> P (pred_numeral k) \<and> (\<forall>i < pred_numeral k. P i)"
  by (auto simp: numeral_eq_Suc less_Suc_eq)

lemmas ex_stream_simps = stream_def ex_state_def pending_bits_def ex_in_def rest_in_def bits_of_byte_def
  nth_append

theorem lens_step_lengths_witness:
  "flow_cont (lens_step Z_OK (ex_state LENS) (ex_in [2, 0, 0xFD, 0xFF, 0x41, 0x42] 5)) \<and>
   unat (left (flow_s (lens_step Z_OK (ex_state LENS) (ex_in [2, 0, 0xFD, 0xFF, 0x41, 0x42] 5)))) = 2 \<and>
   mode (flow_s (lens_step Z_OK (ex_state LENS) (ex_in [2, 0, 0xFD, 0xFF, 0x41, 0x42] 5))) = STORED"
proof -
  let ?s = "ex_state LENS" and ?z = "ex_in [2, 0, 0xFD, 0xFF, 0x41, 0x42] 5"
  have h: "clean ?s" "8 dvd bitk ?s" "32 \<le> length (stream ?s ?z)"
    by (simp_all add: ex_state_def clean_def length_stream ex_in_def avail_in_def)
  have c: "\<forall>i < 16. stream ?s ?z ! (16 + i) = (\<not> stream ?s ?z ! i)"
    by (simp add: all_less_num ex_stream_simps)
  have n: "nat_of_bits (take 16 (stream ?s ?z)) = 2"
    by (simp add: ex_stream_simps upt_rec)
  from lens_step_lengths [OF h, of Z_OK] c n show ?thesis by (simp add: Let_def)
qed

theorem lens_step_stale_bits_witness:
  "bitb (flow_s (lens_step Z_OK (ex_state LENS) (ex_in [2, 0, 0xFD, 0xFF, 0x41, 0x42] 5))) \<noteq> 0 \<and>
   \<not> clean (flow_s (lens_step Z_OK (ex_state LENS) (ex_in [2, 0, 0xFD, 0xFF, 0x41, 0x42] 5)))"
proof -
  let ?s = "ex_state LENS" and ?z = "ex_in [2, 0, 0xFD, 0xFF, 0x41, 0x42] 5"
  have h: "clean ?s" "8 dvd bitk ?s" "32 \<le> length (stream ?s ?z)"
    by (simp_all add: ex_state_def clean_def length_stream ex_in_def avail_in_def)
  have "flow_cont (lens_step Z_OK ?s ?z)"
    by (simp add: lens_step_def needbits.simps ex_state_def ex_in_def avail_in_def nextbyte_def Let_def)
  from lens_step_stale_bits [OF h this] show ?thesis by simp
qed

end
