(* ===== verification/Termination.thy ===== *)
theory Termination
  imports Steps
begin

text \<open>
  Termination of \<^verbatim>\<open>inflate_blocks\<close>: every pass of the mode switch that does not
  return either consumes input bits or moves to a later mode of the dynamic-block
  pipeline, so the \<^verbatim>\<open>while (1)\<close> loop ends. The only pass whose input consumption the
  file does not control is \<^verbatim>\<open>case CODES\<close>, which calls \<^verbatim>\<open>inflate_codes\<close>; the
  contract \<open>codes_progress\<close> asks that a codes decoder reporting the end of its block
  has not put back more input than it took.
\<close>

definition input_bits :: "'a bitbuf_scheme \<Rightarrow> z_stream \<Rightarrow> nat" where
  "input_bits s z = 8 * avail_in z + bitk s"

definition codes_progress :: "('t, 'c) env \<Rightarrow> bool" where
  "codes_progress env \<longleftrightarrow>
     (\<forall>c w z r c' w' z'. codes_run env c w z r = (Z_STREAM_END, c', w', z') \<longrightarrow>
        input_bits w' z' \<le> input_bits w z)"

text \<open>
  The rank of a mode in the order the modes fall through without reading input
  (\<^verbatim>\<open>BTREE\<close> \<open>\<rightarrow>\<close> \<^verbatim>\<open>DTREE\<close> \<open>\<rightarrow>\<close> \<^verbatim>\<open>CODES\<close> \<open>\<rightarrow>\<close>
  \<^verbatim>\<open>TYPE\<close>/\<^verbatim>\<open>DRY\<close> \<open>\<rightarrow>\<close> \<^verbatim>\<open>DONE\<close>); the loop measure weighs input bits above it.
\<close>

primrec mode_rank :: "block_mode \<Rightarrow> nat" where
  "mode_rank TYPE_M = 3"
| "mode_rank LENS = 0"
| "mode_rank STORED = 0"
| "mode_rank TABLE = 0"
| "mode_rank BTREE = 6"
| "mode_rank DTREE = 5"
| "mode_rank CODES = 4"
| "mode_rank DRY = 2"
| "mode_rank DONE = 1"
| "mode_rank INF_ERROR = 0"

definition loop_measure :: "('t, 'c) blocks_state \<Rightarrow> z_stream \<Rightarrow> nat" where
  "loop_measure s z = 8 * input_bits s z + mode_rank (mode s)"

subsection \<open>Input consumed by the macros\<close>

lemma needbits_Cont_input:
  "needbits j r s z = Cont r' s' z' \<Longrightarrow>
     input_bits s' z' = input_bits s z \<and> j \<le> bitk s' \<and> bit_frame s' = bit_frame s"
  using needbits_avail [of j r s z] needbits_Cont [of j r s z] needbits_Cont_frame [of j r s z]
  by (simp add: input_bits_def)

lemma needbits_Cont_blocks:
  assumes "needbits j r (s :: ('t, 'c) blocks_state) z = Cont r' s' z'"
  shows "input_bits s' z' = input_bits s z \<and> j \<le> bitk s' \<and>
         mode s' = mode s \<and> last_blk s' = last_blk s \<and> left s' = left s \<and>
         table s' = table s \<and> index s' = index s \<and> blens s' = blens s \<and> bb s' = bb s \<and>
         tb s' = tb s \<and> codes s' = codes s \<and> window s' = window s \<and>
         wread s' = wread s \<and> wwrite s' = wwrite s \<and> checkfn s' = checkfn s \<and> check s' = check s"
  using needbits_Cont_input [OF assms] bit_frame_blocks [of s' s] by simp

lemma dumpbits_input [simp]: "input_bits (dumpbits n s) z = input_bits s z - min n (bitk s)"
  by (simp add: input_bits_def dumpbits_def)

lemma input_bits_upd [simp]:
  "input_bits (s\<lparr>mode := m\<rparr>) z = input_bits s z"
  "input_bits (s\<lparr>last_blk := l\<rparr>) z = input_bits s z"
  "input_bits (s\<lparr>left := n\<rparr>) z = input_bits s z"
  "input_bits (s\<lparr>table := t\<rparr>) z = input_bits s z"
  "input_bits (s\<lparr>index := i\<rparr>) z = input_bits s z"
  "input_bits (s\<lparr>blens := bl\<rparr>) z = input_bits s z"
  "input_bits (s\<lparr>bb := b\<rparr>) z = input_bits s z"
  "input_bits (s\<lparr>tb := tr\<rparr>) z = input_bits s z"
  "input_bits (s\<lparr>codes := c\<rparr>) z = input_bits s z"
  "input_bits s (z\<lparr>msg := ms\<rparr>) = input_bits s z"
  by (simp_all add: input_bits_def)

lemma needbits_then_Cont:
  assumes "(case needbits j r s z of Leave r s z \<Rightarrow> Leave r s z | Cont r s z \<Rightarrow> f r s z) = Cont r' s' z'"
  obtains r1 s1 z1 where "needbits j r s z = Cont r1 s1 z1" "f r1 s1 z1 = Cont r' s' z'"
  using assms by (cases "needbits j r s z") auto

subsection \<open>Progress of each case\<close>

lemma type_step_Cont:
  assumes "type_step env r s z = Cont r' s' z'"
  shows "input_bits s' z' + 3 \<le> input_bits s z \<and> mode s' \<in> {LENS, CODES, TABLE}"
proof -
  from assms obtain r1 s1 z1 where nb: "needbits 3 r s z = Cont r1 s1 z1" and
    f: "(let t = unat (bitb s1 AND 7); s = s1\<lparr>last_blk := odd t\<rparr>
         in if t div 2 = 0 then
              (let s = dumpbits 3 s; s = dumpbits (bitk s mod 8) s in Cont r1 (s\<lparr>mode := LENS\<rparr>) z1)
            else if t div 2 = 1 then
              (let (bl, bd, ltab, dtab) = trees_fixed env; s = s\<lparr>codes := codes_new env bl bd ltab dtab\<rparr>
               in if codes s = None then Leave Z_MEM_ERROR s z1
                  else Cont r1 ((dumpbits 3 s)\<lparr>mode := CODES\<rparr>) z1)
            else if t div 2 = 2 then Cont r1 ((dumpbits 3 s)\<lparr>mode := TABLE\<rparr>) z1
            else Leave Z_DATA_ERROR ((dumpbits 3 s)\<lparr>mode := INF_ERROR\<rparr>)
                   (z1\<lparr>msg := ''invalid block type''\<rparr>)) = Cont r' s' z'"
    unfolding type_step_def by (rule needbits_then_Cont)
  from needbits_Cont_input [OF nb] have i: "input_bits s1 z1 = input_bits s z" "3 \<le> bitk s1" by simp_all
  moreover from i have "3 \<le> input_bits s z" by (simp add: input_bits_def)
  ultimately show ?thesis using f
    by (auto simp: Let_def split: if_splits prod.splits)
qed

lemma lens_step_Cont:
  assumes "lens_step r s z = Cont r' s' z'"
  shows "input_bits s' z' + 32 \<le> input_bits s z \<and> mode s' \<in> {STORED, TYPE_M}"
proof -
  from assms obtain r1 s1 z1 where nb: "needbits 32 r s z = Cont r1 s1 z1" and
    f: "(if drop_bit 16 (NOT (bitb s1)) \<noteq> bitb s1 AND 0xFFFF then
             Leave Z_DATA_ERROR (s1\<lparr>mode := INF_ERROR\<rparr>) (z1\<lparr>msg := ''invalid stored block lengths''\<rparr>)
           else
             (let s = s1\<lparr>bitk := 0\<rparr>;
                  s = s\<lparr>left := ucast (bitb s AND 0xFFFF)\<rparr>
              in Cont r1 (s\<lparr>mode := if left s \<noteq> 0 then STORED else TYPE_M\<rparr>) z1)) = Cont r' s' z'"
    unfolding lens_step_def by (rule needbits_then_Cont)
  from needbits_Cont_input [OF nb] have "input_bits s1 z1 = input_bits s z" "32 \<le> bitk s1" by simp_all
  then show ?thesis using f
    by (auto simp: Let_def input_bits_def split: if_splits)
qed

lemma needout_Cont_input:
  assumes "needout r s z = Cont r' s' z'"
  shows "input_bits s' z' = input_bits s z \<and> mode s' = mode (s :: ('t, 'c) blocks_state)"
proof -
  have "win_frame s' = win_frame s" using needout_frame [of r s z] assms by simp
  then show ?thesis using needout_Cont_in [OF assms] win_frame_blocks [of s' s]
    by (simp add: input_bits_def)
qed

lemma nextbyte_input:
  "avail_in z \<noteq> 0 \<Longrightarrow> Suc (avail_in (snd (nextbyte z))) = avail_in z"
  by (simp add: nextbyte_def avail_in_def)

lemma stored_copy_Cont:
  "stored_copy r s z = Cont r' s' z' \<Longrightarrow>
     input_bits s' z' + 8 \<le> input_bits s z \<and> mode s' \<in> {DRY, TYPE_M}"
proof (induction r s z rule: stored_copy.induct)
  case (1 r s z)
  show ?case
  proof (cases "avail_in z = 0")
    case False
    with "1.prems" obtain r1 s1 z1 where no: "needout Z_OK s z = Cont r1 s1 z1" and
      rest: "(let (c, z) = nextbyte z1; s = outbyte c s1; s = s\<lparr>left := left s - 1\<rparr>
              in if left s \<noteq> 0 then stored_copy r1 s z
                 else Cont r1 (s\<lparr>mode := if last_blk s then DRY else TYPE_M\<rparr>) z) = Cont r' s' z'"
      by (subst (asm) stored_copy.simps) (auto split: flow.splits)
    obtain c z2 where nx: "nextbyte z1 = (c, z2)" by (cases "nextbyte z1")
    have i1: "input_bits s1 z1 = input_bits s z" using needout_Cont_input [OF no] by simp
    have "avail_in z1 \<noteq> 0" using needout_Cont_in [OF no] False by simp
    then have i2: "input_bits (outbyte c s1\<lparr>left := left s1 - 1\<rparr>) z2 + 8 = input_bits s z"
      using nextbyte_input [of z1] nx i1 by (simp add: input_bits_def outbyte_def)
    show ?thesis
    proof (cases "left s1 - 1 = 0")
      case True
      with rest nx i2 show ?thesis by (auto simp: outbyte_def split: if_splits)
    next
      case nz: False
      with rest nx have "stored_copy r1 (outbyte c s1\<lparr>left := left s1 - 1\<rparr>) z2 = Cont r' s' z'"
        by (simp add: outbyte_def)
      with "1.IH" [OF False no refl nx [symmetric] refl refl] i2 nz show ?thesis by (simp add: outbyte_def)
    qed
  qed (use "1.prems" in \<open>simp add: stored_copy.simps\<close>)
qed

lemma table_step_Cont:
  assumes "table_step env r s z = Cont r' s' z'"
  shows "input_bits s' z' + 14 \<le> input_bits s z \<and> mode s' = BTREE"
proof -
  from assms obtain r1 s1 z1 where nb: "needbits 14 r s z = Cont r1 s1 z1" and
    f: "(let t = unat (bitb s1 AND 0x3FFF); s = s1\<lparr>table := t\<rparr>
           in if 29 < t mod 32 \<or> 29 < t div 32 mod 32 then
                Leave Z_DATA_ERROR (s\<lparr>mode := INF_ERROR\<rparr>)
                  (z1\<lparr>msg := ''too many length or distance symbols''\<rparr>)
              else
                (let n = 258 + t mod 32 + t div 32 mod 32; n = (if n < 19 then 19 else n)
                 in if \<not> zalloc_ok env (Blens_buf n) then Leave Z_MEM_ERROR s z1
                    else Cont r1 ((dumpbits 14 s)\<lparr>blens := Some (replicate n 0), index := 0,
                                                  mode := BTREE\<rparr>) z1)) = Cont r' s' z'"
    unfolding table_step_def by (rule needbits_then_Cont)
  from needbits_Cont_input [OF nb] have i: "input_bits s1 z1 = input_bits s z" "14 \<le> bitk s1" by simp_all
  moreover from i have "14 \<le> input_bits s z" by (simp add: input_bits_def)
  ultimately show ?thesis using f
    by (auto simp: Let_def split: if_splits)
qed

lemma btree_read_Cont:
  "btree_read r s z = Cont r' s' z' \<Longrightarrow>
     input_bits s' z' \<le> input_bits s z \<and> mode s' = mode s"
proof (induction r s z rule: btree_read.induct)
  case (1 r s z)
  show ?case
  proof (cases "index s < 4 + table s div 1024")
    case True
    with "1.prems" obtain r1 s1 z1 where nb: "needbits 3 r s z = Cont r1 s1 z1" and
      rec: "btree_read r1 (dumpbits 3 (s1\<lparr>blens := map_option (\<lambda>l. l[border ! index s1 := unat (bitb s1 AND 7)]) (blens s1),
                                    index := Suc (index s1)\<rparr>)) z1 = Cont r' s' z'"
      by (subst (asm) btree_read.simps) (auto split: flow.splits)
    from needbits_Cont_input [OF nb] have "input_bits s1 z1 = input_bits s z" "mode s1 = mode s"
      using bit_frame_blocks by auto
    with "1.IH" [OF True nb rec] show ?thesis by (auto intro: order_trans [OF _ diff_le_self])
  next
    case False
    with "1.prems" show ?thesis by (simp add: btree_read.simps)
  qed
qed

lemma btree_step_Cont:
  assumes "btree_step env r s z = Cont r' s' z'"
  shows "input_bits s' z' \<le> input_bits s z \<and> mode s' = DTREE"
proof -
  obtain r1 s1 z1 where br: "btree_read r s z = Cont r1 s1 z1"
    using assms by (cases "btree_read r s z") (auto simp: btree_step_def)
  obtain i l where bz: "btree_zero (index s1) (the (blens s1)) = (i, l)" by (cases "btree_zero (index s1) (the (blens s1))")
  from assms br bz have "input_bits s' z' = input_bits s1 z1 \<and> mode s' = DTREE"
    by (cases "trees_bits env l 7") (auto simp: btree_step_def Let_def split: if_splits)
  with btree_read_Cont [OF br] show ?thesis by simp
qed

text \<open>
  Reasoning principle for the \<^verbatim>\<open>DTREE\<close> loop: a property \<open>R\<close> of its outcome
  follows from an invariant \<open>I\<close> kept by a literal length and by a valid repeat, and
  from \<open>R\<close> at each way out (loop bound reached, input exhausted at either
  \<^verbatim>\<open>NEEDBITS\<close>, invalid repeat).
\<close>

lemma dtree_read_rule:
  assumes "I s z"
    and exit: "\<And>r s z. I s z \<Longrightarrow> \<not> index s < dtree_total (table s) \<Longrightarrow> R (Cont r s z)"
    and out1: "\<And>r s z r1 s1 z1. I s z \<Longrightarrow> index s < dtree_total (table s) \<Longrightarrow>
        needbits (bb s) r s z = Leave r1 s1 z1 \<Longrightarrow> R (Leave r1 s1 z1)"
    and lit: "\<And>r s z r1 s1 z1 t c. I s z \<Longrightarrow> index s < dtree_total (table s) \<Longrightarrow>
        needbits (bb s) r s z = Cont r1 s1 z1 \<Longrightarrow>
        huft_entry env (the (tb s1)) (unat (bitb s1 AND mask (bb s1))) = (t, c) \<Longrightarrow> c < 16 \<Longrightarrow>
        I ((dumpbits t s1)\<lparr>blens := map_option (\<lambda>l. l[index s1 := c]) (blens s1),
                            index := Suc (index s1)\<rparr>) z1"
    and out2: "\<And>r s z r1 s1 z1 t c r2 s2 z2. I s z \<Longrightarrow> index s < dtree_total (table s) \<Longrightarrow>
        needbits (bb s) r s z = Cont r1 s1 z1 \<Longrightarrow>
        huft_entry env (the (tb s1)) (unat (bitb s1 AND mask (bb s1))) = (t, c) \<Longrightarrow> \<not> c < 16 \<Longrightarrow>
        needbits (t + (if c = 18 then 7 else c - 14)) r1 s1 z1 = Leave r2 s2 z2 \<Longrightarrow> R (Leave r2 s2 z2)"
    and rep: "\<And>r s z r1 s1 z1 t c r2 s2 z2. I s z \<Longrightarrow> index s < dtree_total (table s) \<Longrightarrow>
        needbits (bb s) r s z = Cont r1 s1 z1 \<Longrightarrow>
        huft_entry env (the (tb s1)) (unat (bitb s1 AND mask (bb s1))) = (t, c) \<Longrightarrow> \<not> c < 16 \<Longrightarrow>
        needbits (t + (if c = 18 then 7 else c - 14)) r1 s1 z1 = Cont r2 s2 z2 \<Longrightarrow>
        (let i = if c = 18 then 7 else c - 14; s3 = dumpbits t s2;
             j = (if c = 18 then 11 else 3) + unat (bitb s3 AND mask i); s4 = dumpbits i s3; k = index s4
         in if dtree_total (table s4) < k + j \<or> (c = 16 \<and> k < 1) then
              R (Leave Z_DATA_ERROR (s4\<lparr>mode := INF_ERROR\<rparr>) (z2\<lparr>msg := ''invalid bit length repeat''\<rparr>))
            else
              I (s4\<lparr>blens := map_option (\<lambda>l. repeat_fill l k j (if c = 16 then the (blens s4) ! (k - 1) else 0))
                                       (blens s4),
                    index := k + j\<rparr>) z2)"
  shows "R (dtree_read env r s z)"
  using assms
proof (induction env r s z rule: dtree_read.induct)
  case (1 env r s z)
  note prems = "1.prems"
  show ?case
  proof (cases "index s < dtree_total (table s)")
    case False
    with prems show ?thesis by (simp add: dtree_read.simps)
  next
    case True
    show ?thesis
    proof (cases "needbits (bb s) r s z")
      case (Leave r1 s1 z1)
      with True prems(1,3) show ?thesis by (simp add: dtree_read.simps [of env r s z])
    next
      case nb: (Cont r1 s1 z1)
      obtain t c where he: "huft_entry env (the (tb s1)) (unat (bitb s1 AND mask (bb s1))) = (t, c)"
        by fastforce
      show ?thesis
      proof (cases "c < 16")
        case c: True
        have eq: "dtree_read env r s z = dtree_read env r1 ((dumpbits t s1)\<lparr>blens :=
                    map_option (\<lambda>l. l[index s1 := c]) (blens s1), index := Suc (index s1)\<rparr>) z1"
          using True nb he c by (simp add: dtree_read.simps [of env r s z])
        show ?thesis unfolding eq
          by (rule "1.IH"(1) [OF True nb refl he [symmetric] c prems(4) [OF prems(1) True nb he c]
                prems(2-6)])
      next
        case c: False
        define i where "i = (if c = 18 then 7 else c - 14)"
        show ?thesis
        proof (cases "needbits (t + i) r1 s1 z1")
          case (Leave r2 s2 z2)
          with True nb he c prems(1) prems(5) [OF prems(1) True nb he c] show ?thesis
            by (simp add: dtree_read.simps [of env r s z] i_def)
        next
          case nb2: (Cont r2 s2 z2)
          define s3 where "s3 = dumpbits t s2"
          define j where "j = (if c = 18 then 11 else 3) + unat (bitb s3 AND mask i)"
          define s4 where "s4 = dumpbits i s3"
          have r: "if dtree_total (table s4) < index s4 + j \<or> (c = 16 \<and> index s4 < 1) then
              R (Leave Z_DATA_ERROR (s4\<lparr>mode := INF_ERROR\<rparr>) (z2\<lparr>msg := ''invalid bit length repeat''\<rparr>))
            else I (s4\<lparr>blens := map_option (\<lambda>l. repeat_fill l (index s4) j
                       (if c = 16 then the (blens s4) ! (index s4 - 1) else 0)) (blens s4),
                   index := index s4 + j\<rparr>) z2"
            using prems(6) [OF prems(1) True nb he c nb2 [unfolded i_def]]
            unfolding Let_def i_def [symmetric] s3_def [symmetric] j_def [symmetric] s4_def [symmetric] .
          have eq: "dtree_read env r s z =
             (if dtree_total (table s4) < index s4 + j \<or> (c = 16 \<and> index s4 < 1) then
                Leave Z_DATA_ERROR (s4\<lparr>mode := INF_ERROR\<rparr>) (z2\<lparr>msg := ''invalid bit length repeat''\<rparr>)
              else dtree_read env r2 (s4\<lparr>blens := map_option (\<lambda>l. repeat_fill l (index s4) j
                       (if c = 16 then the (blens s4) ! (index s4 - 1) else 0)) (blens s4),
                   index := index s4 + j\<rparr>) z2)"
            using True nb he c nb2
            by (simp add: dtree_read.simps [of env r s z] Let_def i_def j_def s3_def s4_def)
          show ?thesis
          proof (cases "dtree_total (table s4) < index s4 + j \<or> (c = 16 \<and> index s4 < 1)")
            case True
            with r eq show ?thesis by simp
          next
            case ok: False
            with r have inv: "I (s4\<lparr>blens := map_option (\<lambda>l. repeat_fill l (index s4) j
                       (if c = 16 then the (blens s4) ! (index s4 - 1) else 0)) (blens s4),
                   index := index s4 + j\<rparr>) z2" by simp
            show ?thesis unfolding eq if_not_P [OF ok]
              by (rule "1.IH"(2) [OF \<open>index s < dtree_total (table s)\<close> nb refl he [symmetric] c i_def
                    refl nb2 s3_def j_def s4_def refl ok refl inv prems(2-6)])
          qed
        qed
      qed
    qed
  qed
qed

lemma dtree_read_inv:
  assumes "dtree_read env r s z = Cont r' s' z'" and "I s z"
    and lit: "\<And>r s z r1 s1 z1 t c. I s z \<Longrightarrow> index s < dtree_total (table s) \<Longrightarrow>
        needbits (bb s) r s z = Cont r1 s1 z1 \<Longrightarrow>
        huft_entry env (the (tb s1)) (unat (bitb s1 AND mask (bb s1))) = (t, c) \<Longrightarrow> c < 16 \<Longrightarrow>
        I ((dumpbits t s1)\<lparr>blens := map_option (\<lambda>l. l[index s1 := c]) (blens s1),
                            index := Suc (index s1)\<rparr>) z1"
    and rep: "\<And>r s z r1 s1 z1 t c r2 s2 z2. I s z \<Longrightarrow> index s < dtree_total (table s) \<Longrightarrow>
        needbits (bb s) r s z = Cont r1 s1 z1 \<Longrightarrow>
        huft_entry env (the (tb s1)) (unat (bitb s1 AND mask (bb s1))) = (t, c) \<Longrightarrow> \<not> c < 16 \<Longrightarrow>
        needbits (t + (if c = 18 then 7 else c - 14)) r1 s1 z1 = Cont r2 s2 z2 \<Longrightarrow>
        (let i = if c = 18 then 7 else c - 14; s3 = dumpbits t s2;
             j = (if c = 18 then 11 else 3) + unat (bitb s3 AND mask i); s4 = dumpbits i s3; k = index s4
         in \<not> (dtree_total (table s4) < k + j \<or> (c = 16 \<and> k < 1)) \<longrightarrow>
            I (s4\<lparr>blens := map_option (\<lambda>l. repeat_fill l k j (if c = 16 then the (blens s4) ! (k - 1) else 0))
                                       (blens s4),
                  index := k + j\<rparr>) z2)"
  shows "I s' z'"
proof -
  have "case dtree_read env r s z of Cont r' s' z' \<Rightarrow> I s' z' | Leave _ _ _ \<Rightarrow> True"
  proof (rule dtree_read_rule [where I = I, OF assms(2)])
    fix r s z r1 s1 z1 t c r2 s2 z2
    assume "I s z" "index s < dtree_total (table s)" "needbits (bb s) r s z = Cont r1 s1 z1"
      "huft_entry env (the (tb s1)) (unat (bitb s1 AND mask (bb s1))) = (t, c)" "\<not> c < 16"
      "needbits (t + (if c = 18 then 7 else c - 14)) r1 s1 z1 = Cont r2 s2 z2"
    from rep [OF this] show "let i = if c = 18 then 7 else c - 14; s3 = dumpbits t s2;
             j = (if c = 18 then 11 else 3) + unat (bitb s3 AND mask i); s4 = dumpbits i s3; k = index s4
         in if dtree_total (table s4) < k + j \<or> (c = 16 \<and> k < 1) then
              (case Leave Z_DATA_ERROR (s4\<lparr>mode := INF_ERROR\<rparr>) (z2\<lparr>msg := ''invalid bit length repeat''\<rparr>)
               of Cont r' s' z' \<Rightarrow> I s' z' | Leave _ _ _ \<Rightarrow> True)
            else
              I (s4\<lparr>blens := map_option (\<lambda>l. repeat_fill l k j (if c = 16 then the (blens s4) ! (k - 1) else 0))
                                       (blens s4),
                    index := k + j\<rparr>) z2"
      by (simp add: Let_def)
  qed (use lit in auto)
  with assms(1) show ?thesis by simp
qed

lemma dtree_read_Cont:
  assumes "dtree_read (env :: ('t, 'c) env) r s z = Cont r' s' z'"
  shows "input_bits s' z' \<le> input_bits s z \<and> mode s' = mode s"
proof -
  let ?I = "\<lambda>(s1 :: ('t, 'c) blocks_state) z1. input_bits s1 z1 \<le> input_bits s z \<and> mode s1 = mode s"
  have "?I s' z'"
  proof (rule dtree_read_inv [OF assms, where I = ?I])
    fix r s0 z0 r1 s1 z1 t c
    assume "?I s0 z0" and nb: "needbits (bb s0) r s0 z0 = Cont r1 s1 z1"
    with needbits_Cont_blocks [OF nb]
    show "?I ((dumpbits t s1)\<lparr>blens := map_option (\<lambda>l. l[index s1 := c]) (blens s1),
                                     index := Suc (index s1)\<rparr>) z1"
      by (auto intro: le_trans [OF diff_le_self])
  next
    fix r s0 z0 r1 s1 z1 t c r2 s2 z2
    assume "?I s0 z0" and nb: "needbits (bb s0) r s0 z0 = Cont r1 s1 z1"
      and nb2: "needbits (t + (if c = 18 then 7 else c - 14)) r1 s1 z1 = Cont r2 s2 z2"
    with needbits_Cont_blocks [OF nb] needbits_Cont_blocks [OF nb2]
    show "let i = if c = 18 then 7 else c - 14; s3 = dumpbits t s2;
             j = (if c = 18 then 11 else 3) + unat (bitb s3 AND mask i); s4 = dumpbits i s3; k = index s4
         in \<not> (dtree_total (table s4) < k + j \<or> (c = 16 \<and> k < 1)) \<longrightarrow>
            ?I (s4\<lparr>blens := map_option (\<lambda>l. repeat_fill l k j (if c = 16 then the (blens s4) ! (k - 1) else 0))
                                       (blens s4),
                  index := k + j\<rparr>) z2"
      by (auto simp: Let_def intro: le_trans [OF diff_le_self])
  qed simp
  then show ?thesis .
qed

lemma dtree_step_Cont:
  assumes "dtree_step env r s z = Cont r' s' z'"
  shows "input_bits s' z' \<le> input_bits s z \<and> mode s' = CODES"
proof -
  obtain r1 s1 z1 where dr: "dtree_read env r s z = Cont r1 s1 z1"
    using assms by (cases "dtree_read env r s z") (auto simp: dtree_step_def)
  obtain bl bd lt dt where td: "trees_dynamic env (257 + table s1 mod 32) (1 + table s1 div 32 mod 32)
      (the (blens s1)) 9 6 = Inr (bl, bd, lt, dt)"
    using assms dr by (auto simp: dtree_step_def Let_def split: sum.splits if_splits)
  from assms dr td have "input_bits s' z' = input_bits s1 z1 \<and> mode s' = CODES"
    by (auto simp: dtree_step_def Let_def split: option.splits)
  with dtree_read_Cont [OF dr] show ?thesis by simp
qed

lemma with_io_input [simp]: "input_bits (with_io w s) z = input_bits w z"
  by (simp add: with_io_def input_bits_def)

lemma with_io_blocks [simp]:
  "mode (with_io w s) = mode s" "last_blk (with_io w s) = last_blk s" "left (with_io w s) = left s"
  "table (with_io w s) = table s" "index (with_io w s) = index s" "blens (with_io w s) = blens s"
  "bb (with_io w s) = bb s" "tb (with_io w s) = tb s" "codes (with_io w s) = codes s"
  "bitk (with_io w s) = bitk w" "bitb (with_io w s) = bitb w"
  by (simp_all add: with_io_def)

lemma codes_step_Cont:
  assumes "codes_progress env" "codes_step env r s z = Cont r' s' z'"
  shows "input_bits s' z' \<le> input_bits s z \<and> mode s' \<in> {TYPE_M, DRY}"
proof -
  obtain r1 c w z1 where cr: "codes_run env (the (codes s)) (io_of s) z r = (r1, c, w, z1)"
    by (metis prod_cases4)
  have end1: "r1 = Z_STREAM_END" using assms(2) cr by (auto simp: codes_step_def Let_def split: if_splits)
  with assms(1) cr have le: "input_bits w z1 \<le> input_bits s z"
    unfolding codes_progress_def by (fastforce simp: input_bits_def io_of_def)
  show ?thesis
  proof (cases "last_blk s")
    case False
    with assms(2) cr end1 le show ?thesis by (auto simp: codes_step_def)
  next
    case True
    have "8 * avail_in (z1\<lparr>pos_in := pos_in z1 - 1, total_in := total_in z1 - 1\<rparr>) \<le> 8 * avail_in z1 + 8"
      by (simp add: avail_in_def)
    with assms(2) cr end1 le True show ?thesis
      by (auto simp: codes_step_def input_bits_def Let_def split: if_splits)
  qed
qed

lemma dry_step_Cont:
  assumes "dry_step r s z = Cont r' s' z'"
  shows "input_bits s' z' = input_bits s z \<and> mode s' = DONE"
proof -
  obtain r1 s1 z1 where fl: "inflate_flush r s z = (r1, s1, z1)" by (metis prod_cases3)
  have "bitk s1 = bitk s" using win_frame_fields [OF inflate_flush_frame [OF fl]] by simp
  with inflate_flush_in [OF fl] assms fl show ?thesis
    by (auto simp: dry_step_def input_bits_def split: if_splits)
qed

subsection \<open>The loop ends\<close>

lemma blocks_step_progress:
  assumes "codes_progress env" "blocks_step env r s z = Cont r' s' z'"
  shows "loop_measure s' z' < loop_measure s z"
proof (cases "mode s")
  case TYPE_M
  with assms(2) type_step_Cont [of env r s z r' s' z'] show ?thesis
    by (auto simp: blocks_step_def loop_measure_def)
next
  case LENS
  with assms(2) lens_step_Cont [of r s z r' s' z'] show ?thesis
    by (auto simp: blocks_step_def loop_measure_def)
next
  case STORED
  with assms(2) stored_copy_Cont [of r s z r' s' z'] show ?thesis
    by (auto simp: blocks_step_def loop_measure_def)
next
  case TABLE
  with assms(2) table_step_Cont [of env r s z r' s' z'] show ?thesis
    by (auto simp: blocks_step_def loop_measure_def)
next
  case BTREE
  with assms(2) btree_step_Cont [of env r s z r' s' z'] show ?thesis
    by (auto simp: blocks_step_def loop_measure_def)
next
  case DTREE
  with assms(2) dtree_step_Cont [of env r s z r' s' z'] show ?thesis
    by (auto simp: blocks_step_def loop_measure_def)
next
  case CODES
  with assms codes_step_Cont [of env r s z r' s' z'] show ?thesis
    by (auto simp: blocks_step_def loop_measure_def)
next
  case DRY
  with assms(2) dry_step_Cont [of r s z r' s' z'] show ?thesis
    by (auto simp: blocks_step_def loop_measure_def)
qed (use assms(2) in \<open>simp_all add: blocks_step_def\<close>)

lemma blocks_loop_total:
  assumes "codes_progress env"
  shows "\<exists>res. blocks_loop env r s z = Some res"
proof (induction "loop_measure s z" arbitrary: r s z rule: less_induct)
  case less
  show ?case
  proof (cases "blocks_step env r s z")
    case (Cont r' s' z')
    with less blocks_step_progress [OF assms Cont] show ?thesis
      by (simp add: blocks_loop.simps [of env r s z])
  qed (auto simp: blocks_loop.simps [of env r s z] intro: prod_cases3)
qed

text \<open>
  C1. With a codes decoder that never reports the end of a block while holding more
  input than it was given, every call of \<^verbatim>\<open>inflate_blocks\<close> returns: the
  \<^verbatim>\<open>while (1) switch (s->mode)\<close> loop always reaches a \<^verbatim>\<open>LEAVE\<close>.
\<close>

theorem inflate_blocks_terminates:
  assumes "codes_progress env"
  shows "\<exists>res. inflate_blocks env s z r = Some res"
  unfolding inflate_blocks_def by (rule blocks_loop_total [OF assms])

theorem inflate_blocks_terminates_witness:
  "\<exists>res. inflate_blocks ex_env (ex_state TYPE_M) (ex_in [3, 0] 5) Z_OK = Some res"
proof -
  have "codes_progress ex_env" by (simp add: codes_progress_def ex_env_def)
  then show ?thesis by (rule inflate_blocks_terminates)
qed

end
