(* ===== verification/Scenarios.thy ===== *)
theory Scenarios
  imports Termination
begin

text \<open>
  Concrete sessions for witnesses: a state made by \<^verbatim>\<open>inflate_blocks_new\<close> with an
  8-byte window and no check function, a call with 100 bytes of output space, and the
  rewrite rules with which the simplifier runs \<^verbatim>\<open>inflate_blocks\<close> on a concrete input,
  unfolding the loop one pass at a time.
\<close>

definition ex_new :: "(unit, unit) blocks_state" where
  "ex_new = the (inflate_blocks_new (\<lambda>_. True) None 8)"

definition ex_call :: "byte list \<Rightarrow> z_stream" where
  "ex_call bs = \<lparr>next_in = bs, pos_in = 0, total_in = 0, out = [], avail_out = 100,
                 total_out = 0, msg = []\<rparr>"

lemma replicate_num: "replicate (numeral k) x = x # replicate (pred_numeral k) x"
  by (simp add: numeral_eq_Suc)

lemmas run_simps = inflate_blocks_def ex_new_def ex_call_def inflate_blocks_new_def
  blocks_step_def type_step_def lens_step_def dry_step_def stored_copy.simps needbits.simps
  avail_in_def nextbyte_def Let_def dumpbits_def needout_def wavail_def outbyte_def wrap_def
  inflate_flush_def flush_copy_def update_check_def replicate_num

end
