(* ===== verification/Session.thy ===== *)
theory Session
  imports Scenarios
begin

text \<open>
  The objects a decoder state owns and the life of a decoder session. \<open>owns_ok\<close> is
  the ownership invariant the spec states (the codes decoder exists exactly in
  \<^verbatim>\<open>CODES\<close>, the length vector during \<^verbatim>\<open>BTREE\<close>/\<^verbatim>\<open>DTREE\<close>, the bit-length tree
  only while \<^verbatim>\<open>DTREE\<close> reads lengths), weakened where the code keeps objects after a
  data error; every pass of \<^verbatim>\<open>inflate_blocks\<close> keeps it. \<open>session\<close> is the set
  of states a caller can reach: \<^verbatim>\<open>inflate_blocks_new\<close>, then any number of calls of
  \<^verbatim>\<open>inflate_blocks\<close> with any input and output buffers.
\<close>

definition owns_ok :: "('t, 'c) blocks_state \<Rightarrow> bool" where
  "owns_ok s \<longleftrightarrow>
     (codes s \<noteq> None \<longleftrightarrow> mode s = CODES) \<and>
     (mode s = BTREE \<or> mode s = DTREE \<longrightarrow> blens s \<noteq> None) \<and>
     (blens s \<noteq> None \<longrightarrow> mode s \<in> {BTREE, DTREE, INF_ERROR}) \<and>
     (tb s \<noteq> None \<longrightarrow> mode s \<in> {DTREE, INF_ERROR}) \<and>
     (mode s = DTREE \<and> index s < dtree_total (table s) \<longrightarrow> tb s \<noteq> None)"

inductive session :: "('t, 'c) env \<Rightarrow> ('t, 'c) blocks_state \<Rightarrow> bool" for env where
  new: "inflate_blocks_new (zalloc_ok env) c w = Some s \<Longrightarrow> session env s"
| call: "session env s \<Longrightarrow> inflate_blocks env s z r = Some (r', s', z') \<Longrightarrow> session env s'"

subsection \<open>Frames\<close>

text \<open>The part of the state the ownership invariant reads.\<close>

definition own_frame :: "('t, 'c) blocks_state \<Rightarrow> block_mode \<times> nat \<times> nat \<times> 't option \<times> 'c option \<times> bool" where
  "own_frame s = (mode s, table s, index s, tb s, codes s, blens s = None)"

lemma owns_ok_frame: "own_frame s' = own_frame s \<Longrightarrow> owns_ok s' = owns_ok s"
  by (simp add: own_frame_def owns_ok_def)

lemma own_frame_needbits [simp]: "own_frame (flow_s (needbits j r s z)) = own_frame s"
  using bit_frame_blocks [OF conjunct1 [OF needbits_frame [of j r s z]]] by (simp add: own_frame_def)

lemma own_frame_needout [simp]: "own_frame (flow_s (needout r s z)) = own_frame s"
  using win_frame_blocks [OF needout_frame [of r s z]] by (simp add: own_frame_def)

lemma own_frame_flush:
  assumes "inflate_flush r s z = (r', s', z')"
  shows "own_frame s' = own_frame s"
  using win_frame_blocks [OF inflate_flush_frame [OF assms]] by (simp add: own_frame_def)

lemma own_frame_dumpbits [simp]: "own_frame (dumpbits n s) = own_frame s"
  by (simp add: own_frame_def)

lemma owns_nothing:
  "codes s = None \<Longrightarrow> blens s = None \<Longrightarrow> tb s = None \<Longrightarrow> mode s \<notin> {CODES, BTREE, DTREE} \<Longrightarrow> owns_ok s"
  by (simp add: owns_ok_def)

subsection \<open>Each case keeps the invariant\<close>

lemma needbits_own_Cont:
  "needbits j r s z = Cont r1 s1 z1 \<Longrightarrow> own_frame s1 = own_frame s"
  using own_frame_needbits [of j r s z] by simp

lemma needbits_own_Leave:
  "needbits j r s z = Leave r1 s1 z1 \<Longrightarrow> owns_ok s \<Longrightarrow> owns_ok s1"
  using own_frame_needbits [of j r s z] owns_ok_frame [of s1 s] by simp

lemma type_step_owns:
  assumes "owns_ok s" "mode s = TYPE_M"
  shows "owns_ok (flow_s (type_step env r s z))"
proof (cases "needbits 3 r s z")
  case (Leave r1 s1 z1)
  with assms(1) show ?thesis by (simp add: type_step_def needbits_own_Leave)
next
  case (Cont r1 s1 z1)
  from needbits_own_Cont [OF Cont] assms
  have "codes s1 = None" "blens s1 = None" "tb s1 = None" "mode s1 = TYPE_M"
    by (auto simp: own_frame_def owns_ok_def)
  with Cont show ?thesis by (auto simp: type_step_def Let_def owns_ok_def split: prod.splits)
qed

lemma lens_step_owns:
  assumes "owns_ok s" "mode s = LENS"
  shows "owns_ok (flow_s (lens_step r s z))"
proof (cases "needbits 32 r s z")
  case (Leave r1 s1 z1)
  with assms(1) show ?thesis by (simp add: lens_step_def needbits_own_Leave)
next
  case (Cont r1 s1 z1)
  from needbits_own_Cont [OF Cont] assms
  have "codes s1 = None" "blens s1 = None" "tb s1 = None"
    by (auto simp: own_frame_def owns_ok_def)
  with Cont show ?thesis by (auto simp: lens_step_def Let_def owns_ok_def)
qed

lemma stored_copy_own:
  "codes (flow_s (stored_copy r s z)) = codes s \<and> (blens (flow_s (stored_copy r s z)) = None) = (blens s = None) \<and>
   tb (flow_s (stored_copy r s z)) = tb s \<and> mode (flow_s (stored_copy r s z)) \<in> {mode s, DRY, TYPE_M}"
proof (induction r s z rule: stored_copy.induct)
  case (1 r s z)
  show ?case
  proof (cases "avail_in z = 0")
    case False
    show ?thesis
    proof (cases "needout Z_OK s z")
      case (Leave r1 s1 z1)
      with False own_frame_needout [of Z_OK s z] show ?thesis
        by (simp add: stored_copy.simps [of r s z] own_frame_def)
    next
      case (Cont r1 s1 z1)
      obtain c z2 where nx: "nextbyte z1 = (c, z2)" by fastforce
      from own_frame_needout [of Z_OK s z] Cont
      have f: "codes s1 = codes s" "(blens s1 = None) = (blens s = None)" "tb s1 = tb s" "mode s1 = mode s"
        by (simp_all add: own_frame_def)
      show ?thesis
      proof (cases "left s1 - 1 = 0")
        case True
        with False Cont nx f show ?thesis by (simp add: stored_copy.simps [of r s z] outbyte_def)
      next
        case nz: False
        with False Cont nx have eq: "stored_copy r s z = stored_copy r1 (outbyte c s1\<lparr>left := left s1 - 1\<rparr>) z2"
          by (simp add: stored_copy.simps [of r s z] outbyte_def)
        from "1.IH" [OF False Cont refl nx [symmetric] refl refl] nz f show ?thesis
          unfolding eq by (simp add: outbyte_def)
      qed
    qed
  qed (simp add: stored_copy.simps [of r s z])
qed

lemma stored_copy_owns:
  assumes "owns_ok s" "mode s = STORED"
  shows "owns_ok (flow_s (stored_copy r s z))"
  using assms stored_copy_own [of r s z] by (intro owns_nothing) (auto simp: owns_ok_def)

lemma table_step_owns:
  assumes "owns_ok s" "mode s = TABLE"
  shows "owns_ok (flow_s (table_step env r s z))"
proof (cases "needbits 14 r s z")
  case (Leave r1 s1 z1)
  with assms(1) show ?thesis by (simp add: table_step_def needbits_own_Leave)
next
  case (Cont r1 s1 z1)
  from needbits_own_Cont [OF Cont] assms
  have "codes s1 = None" "blens s1 = None" "tb s1 = None" "mode s1 = TABLE"
    by (auto simp: own_frame_def owns_ok_def)
  with Cont show ?thesis by (auto simp: table_step_def Let_def owns_ok_def)
qed

lemma codes_step_owns:
  assumes "owns_ok s" "mode s = CODES"
  shows "owns_ok (flow_s (codes_step env r s z))"
proof -
  obtain r1 c w z1 where cr: "codes_run env (the (codes s)) (io_of s) z r = (r1, c, w, z1)"
    by (metis prod_cases4)
  from assms have "blens s = None" "tb s = None" by (auto simp: owns_ok_def)
  with assms cr show ?thesis by (auto simp: codes_step_def Let_def owns_ok_def)
qed

lemma dry_step_owns:
  assumes "owns_ok s" "mode s = DRY"
  shows "owns_ok (flow_s (dry_step r s z))"
proof -
  obtain r1 s1 z1 where fl: "inflate_flush r s z = (r1, s1, z1)" by (metis prod_cases3)
  from own_frame_flush [OF fl] assms have "codes s1 = None" "blens s1 = None" "tb s1 = None" "mode s1 = DRY"
    by (auto simp: own_frame_def owns_ok_def)
  with fl show ?thesis by (auto simp: dry_step_def owns_ok_def)
qed

lemma btree_read_own:
  "mode (flow_s (btree_read r s z)) = mode s \<and> table (flow_s (btree_read r s z)) = table s \<and>
   tb (flow_s (btree_read r s z)) = tb s \<and> codes (flow_s (btree_read r s z)) = codes s \<and>
   (blens (flow_s (btree_read r s z)) = None) = (blens s = None)"
proof (induction r s z rule: btree_read.induct)
  case (1 r s z)
  show ?case
  proof (cases "index s < 4 + table s div 1024")
    case True
    show ?thesis
    proof (cases "needbits 3 r s z")
      case (Leave r1 s1 z1)
      with True own_frame_needbits [of 3 r s z] show ?thesis
        by (simp add: btree_read.simps [of r s z] own_frame_def)
    next
      case (Cont r1 s1 z1)
      from needbits_own_Cont [OF Cont] have f: "mode s1 = mode s" "table s1 = table s" "tb s1 = tb s"
        "codes s1 = codes s" "(blens s1 = None) = (blens s = None)" by (simp_all add: own_frame_def)
      from "1.IH" [OF True Cont] True Cont f show ?thesis
        by (simp add: btree_read.simps [of r s z])
    qed
  qed (simp add: btree_read.simps [of r s z])
qed

lemma btree_step_owns:
  assumes "owns_ok s" "mode s = BTREE"
  shows "owns_ok (flow_s (btree_step env r s z))"
proof -
  from assms have o: "blens s \<noteq> None" "tb s = None" "codes s = None" by (auto simp: owns_ok_def)
  show ?thesis
  proof (cases "btree_read r s z")
    case (Leave r1 s1 z1)
    with btree_read_own [of r s z] o assms(2) show ?thesis by (simp add: btree_step_def owns_ok_def)
  next
    case (Cont r1 s1 z1)
    with btree_read_own [of r s z] o assms(2)
    have f: "mode s1 = BTREE" "tb s1 = None" "codes s1 = None" by simp_all
    obtain i l where bz: "btree_zero (index s1) (the (blens s1)) = (i, l)" by fastforce
    with Cont f show ?thesis
      by (cases "trees_bits env l 7") (auto simp: btree_step_def owns_ok_def Let_def)
  qed
qed

lemma dtree_read_own:
  fixes env :: "('t, 'c) env" and s :: "('t, 'c) blocks_state"
  defines "R \<equiv> \<lambda>res :: ('t, 'c) blocks_state flow. table (flow_s res) = table s \<and> tb (flow_s res) = tb s \<and>
      codes (flow_s res) = codes s \<and> (blens (flow_s res) = None) = (blens s = None) \<and>
      (flow_cont res \<longrightarrow> mode (flow_s res) = mode s \<and> dtree_total (table s) \<le> index (flow_s res)) \<and>
      (\<not> flow_cont res \<longrightarrow> (mode (flow_s res) = mode s \<or> mode (flow_s res) = INF_ERROR) \<and>
         index s < dtree_total (table s))"
  shows "R (dtree_read env r s z)"
proof (rule dtree_read_rule [where I = "\<lambda>(s' :: ('t, 'c) blocks_state) z'. table s' = table s \<and> tb s' = tb s \<and> codes s' = codes s \<and>
      mode s' = mode s \<and> (blens s' = None) = (blens s = None) \<and> index s \<le> index s'"])
  fix r z' r1 s1 z1 and s' :: "('t, 'c) blocks_state"
  assume "table s' = table s \<and> tb s' = tb s \<and> codes s' = codes s \<and> mode s' = mode s \<and>
      (blens s' = None) = (blens s = None) \<and> index s \<le> index s'"
    "index s' < dtree_total (table s')" "needbits (bb s') r s' z' = Leave r1 s1 z1"
  with own_frame_needbits [of "bb s'" r s' z'] show "R (Leave r1 s1 z1)"
    by (simp add: R_def own_frame_def)
next
  fix r z' r1 s1 z1 t c r2 s2 z2 and s' :: "('t, 'c) blocks_state"
  assume a: "table s' = table s \<and> tb s' = tb s \<and> codes s' = codes s \<and> mode s' = mode s \<and>
      (blens s' = None) = (blens s = None) \<and> index s \<le> index s'"
    "index s' < dtree_total (table s')" "needbits (bb s') r s' z' = Cont r1 s1 z1"
    "needbits (t + (if c = 18 then 7 else c - 14)) r1 s1 z1 = Leave r2 s2 z2"
  with needbits_own_Cont [OF a(3)] own_frame_needbits [of "t + (if c = 18 then 7 else c - 14)" r1 s1 z1]
  show "R (Leave r2 s2 z2)"
    by (simp add: R_def own_frame_def)
next
  fix r z' r1 s1 z1 t c r2 s2 z2 and s' :: "('t, 'c) blocks_state"
  assume a: "table s' = table s \<and> tb s' = tb s \<and> codes s' = codes s \<and> mode s' = mode s \<and>
      (blens s' = None) = (blens s = None) \<and> index s \<le> index s'"
    "index s' < dtree_total (table s')" "needbits (bb s') r s' z' = Cont r1 s1 z1"
    "needbits (t + (if c = 18 then 7 else c - 14)) r1 s1 z1 = Cont r2 s2 z2"
  with needbits_own_Cont [OF a(3)] needbits_own_Cont [OF a(4)]
  show "let i = if c = 18 then 7 else c - 14; s3 = dumpbits t s2;
             j = (if c = 18 then 11 else 3) + unat (bitb s3 AND mask i); s4 = dumpbits i s3; k = index s4
         in if dtree_total (table s4) < k + j \<or> (c = 16 \<and> k < 1) then
              R (Leave Z_DATA_ERROR (s4\<lparr>mode := INF_ERROR\<rparr>) (z2\<lparr>msg := ''invalid bit length repeat''\<rparr>))
            else
              table (s4\<lparr>blens := map_option (\<lambda>l. repeat_fill l k j (if c = 16 then the (blens s4) ! (k - 1) else 0))
                                       (blens s4), index := k + j\<rparr>) = table s \<and>
              tb (s4\<lparr>blens := map_option (\<lambda>l. repeat_fill l k j (if c = 16 then the (blens s4) ! (k - 1) else 0))
                                       (blens s4), index := k + j\<rparr>) = tb s \<and>
              codes (s4\<lparr>blens := map_option (\<lambda>l. repeat_fill l k j (if c = 16 then the (blens s4) ! (k - 1) else 0))
                                       (blens s4), index := k + j\<rparr>) = codes s \<and>
              mode (s4\<lparr>blens := map_option (\<lambda>l. repeat_fill l k j (if c = 16 then the (blens s4) ! (k - 1) else 0))
                                       (blens s4), index := k + j\<rparr>) = mode s \<and>
              (blens (s4\<lparr>blens := map_option (\<lambda>l. repeat_fill l k j (if c = 16 then the (blens s4) ! (k - 1) else 0))
                                       (blens s4), index := k + j\<rparr>) = None) = (blens s = None) \<and>
              index s \<le> index (s4\<lparr>blens := map_option (\<lambda>l. repeat_fill l k j (if c = 16 then the (blens s4) ! (k - 1) else 0))
                                       (blens s4), index := k + j\<rparr>)"
    by (auto simp: R_def own_frame_def Let_def)
qed (auto simp: R_def own_frame_def dest!: needbits_own_Cont)

lemma dtree_step_owns:
  assumes "owns_ok s" "mode s = DTREE"
  shows "owns_ok (flow_s (dtree_step env r s z))"
proof -
  from assms have o: "blens s \<noteq> None" "codes s = None"
    "index s < dtree_total (table s) \<Longrightarrow> tb s \<noteq> None" by (auto simp: owns_ok_def)
  note R = dtree_read_own [of env r s z]
  show ?thesis
  proof (cases "dtree_read env r s z")
    case (Leave r1 s1 z1)
    with R o assms(2) show ?thesis by (auto simp: dtree_step_def owns_ok_def)
  next
    case (Cont r1 s1 z1)
    with R o assms(2) have f: "mode s1 = DTREE" "codes s1 = None" "blens s1 \<noteq> None"
      "dtree_total (table s1) \<le> index s1" by auto
    show ?thesis
    proof (cases "trees_dynamic env (257 + table s1 mod 32) (1 + table s1 div 32 mod 32) (the (blens s1)) 9 6")
      case (Inl e)
      with Cont f show ?thesis by (auto simp: dtree_step_def owns_ok_def Let_def)
    next
      case (Inr x)
      with Cont f show ?thesis
        by (cases x) (auto simp: dtree_step_def owns_ok_def Let_def split: option.splits)
    qed
  qed
qed

lemma blocks_step_owns:
  assumes "owns_ok s"
  shows "owns_ok (flow_s (blocks_step env r s z))"
  using assms type_step_owns lens_step_owns stored_copy_owns table_step_owns btree_step_owns
    dtree_step_owns codes_step_owns dry_step_owns
  by (cases "mode s") (simp_all add: blocks_step_def)

text \<open>Facts kept by every pass of the loop and by the final flush hold of its result.\<close>

lemma blocks_loop_inv:
  assumes ret: "blocks_loop env r s z = Some (r', s', z')" and "I s"
    and step: "\<And>r s z. I s \<Longrightarrow> I (flow_s (blocks_step env r s z))"
    and flush: "\<And>r s z r' s' z'. I s \<Longrightarrow> inflate_flush r s z = (r', s', z') \<Longrightarrow> I s'"
  shows "I s'"
proof -
  have "env = env \<longrightarrow> I s \<longrightarrow> I (fst (snd (r', s', z')))"
  proof (rule blocks_loop.raw_induct [where P = "\<lambda>e r s z res. e = env \<longrightarrow> I s \<longrightarrow> I (fst (snd res))", OF _ ret])
    fix f e r s z res
    assume IH: "\<And>e r s z res. f e r s z = Some res \<Longrightarrow> e = env \<longrightarrow> I s \<longrightarrow> I (fst (snd res))"
      and eq: "(case blocks_step e r s z of Leave r s z \<Rightarrow> Some (inflate_flush r s z)
                | Cont r s z \<Rightarrow> f e r s z) = Some res"
    show "e = env \<longrightarrow> I s \<longrightarrow> I (fst (snd res))"
    proof (intro impI)
      assume e: "e = env" and "I s"
      show "I (fst (snd res))"
      proof (cases "blocks_step env r s z")
        case (Leave r1 s1 z1)
        with step [OF \<open>I s\<close>, of r z] have "I s1" by simp
        obtain a b c where fl: "inflate_flush r1 s1 z1 = (a, b, c)" by (metis prod_cases3)
        with eq e Leave flush [OF \<open>I s1\<close> fl] show ?thesis by auto
      next
        case (Cont r1 s1 z1)
        with step [OF \<open>I s\<close>, of r z] eq e IH [of env r1 s1 z1 res] show ?thesis by simp
      qed
    qed
  qed
  with assms(2) show ?thesis by simp
qed

subsection \<open>Sessions\<close>

lemma owns_ok_flush:
  "owns_ok s \<Longrightarrow> inflate_flush r s z = (r', s', z') \<Longrightarrow> owns_ok s'"
  using own_frame_flush owns_ok_frame by metis

lemma new_owns_ok:
  "inflate_blocks_new za c w = Some s \<Longrightarrow> owns_ok s"
  by (auto simp: inflate_blocks_new_def owns_ok_def split: if_splits)

lemma inflate_blocks_owns:
  "inflate_blocks env s z r = Some (r', s', z') \<Longrightarrow> owns_ok s \<Longrightarrow> owns_ok s'"
  unfolding inflate_blocks_def
  by (rule blocks_loop_inv [where I = owns_ok]) (auto intro: blocks_step_owns owns_ok_flush)

text \<open>
  C3. Ownership invariant of a session: in every state reachable by
  \<^verbatim>\<open>inflate_blocks_new\<close> and calls of \<^verbatim>\<open>inflate_blocks\<close>, a codes decoder is held
  exactly in \<^verbatim>\<open>CODES\<close>, the length vector is held in \<^verbatim>\<open>BTREE\<close> and \<^verbatim>\<open>DTREE\<close> and
  otherwise only after a data error, the bit-length tree only in \<^verbatim>\<open>DTREE\<close> or after
  a data error, and it is present whenever \<^verbatim>\<open>DTREE\<close> still has lengths to read (so
  the table lookups of \<^verbatim>\<open>DTREE\<close>, \<^verbatim>\<open>BTREE\<close> and \<^verbatim>\<open>CODES\<close> never use a missing object).
\<close>

theorem session_owns_ok:
  assumes "session env s"
  shows "owns_ok s"
  using assms
proof (induction rule: session.induct)
  case (new c w s)
  then show ?case by (rule new_owns_ok)
next
  case (call s z r r' s' z')
  then show ?case by (blast intro: inflate_blocks_owns)
qed

lemma session_ex_new: "session ex_env ex_new"
proof -
  have "inflate_blocks_new (zalloc_ok ex_env) None 8 = Some ex_new"
    by (simp add: ex_env_def ex_new_def inflate_blocks_new_def)
  then show ?thesis by (rule session.new)
qed

text \<open>
  C7. What \<^verbatim>\<open>inflate_blocks_free\<close> leaves behind: on a state satisfying the ownership
  invariant it releases every object the state owns except the bit-length tree in
  \<^verbatim>\<open>DTREE\<close> and, in \<^verbatim>\<open>INF_ERROR\<close>, the length vector and the bit-length tree.
\<close>

theorem free_leaks:
  assumes "owns_ok s"
  shows "owned s - snd (inflate_blocks_free s) =
           (if mode s = INF_ERROR then owned s \<inter> {Res_blens, Res_tb}
            else if mode s = DTREE then owned s \<inter> {Res_tb} else {})"
  using assms by (cases "mode s") (auto simp: owns_ok_def owned_def inflate_blocks_free_def)

theorem free_leaks_witness:
  "owned (ex_state INF_ERROR\<lparr>blens := Some [0]\<rparr>) - snd (inflate_blocks_free (ex_state INF_ERROR\<lparr>blens := Some [0]\<rparr>))
     = {Res_blens}"
proof -
  have "owns_ok (ex_state INF_ERROR\<lparr>blens := Some [0]\<rparr>)" by (simp add: owns_ok_def ex_state_def)
  from free_leaks [OF this] show ?thesis by (auto simp: owned_def ex_state_def)
qed

subsection \<open>Terminal modes\<close>

lemma flush_copy_status: "r \<noteq> Z_BUF_ERROR \<Longrightarrow> fst (flush_copy r q n s z) = r"
  by (simp add: flush_copy_def Let_def)

lemma inflate_flush_status:
  "r \<noteq> Z_BUF_ERROR \<Longrightarrow> fst (inflate_flush r s z) = r"
  unfolding inflate_flush_def Let_def split_def
  by (simp add: flush_copy_status)

text \<open>
  C9. \<^verbatim>\<open>DONE\<close> and \<^verbatim>\<open>INF_ERROR\<close> are terminal: a call in \<^verbatim>\<open>DONE\<close> returns
  \<^verbatim>\<open>Z_STREAM_END\<close> and one in \<^verbatim>\<open>INF_ERROR\<close> returns \<^verbatim>\<open>Z_DATA_ERROR\<close>, every time,
  in the same mode and without consuming input; the call only flushes pending window
  bytes.
\<close>

theorem terminal_modes:
  assumes "mode s = DONE \<or> mode s = INF_ERROR"
  shows "\<exists>s' z'. inflate_blocks env s z r =
           Some (if mode s = DONE then Z_STREAM_END else Z_DATA_ERROR, s', z') \<and>
         mode s' = mode s \<and> rest_in z' = rest_in z \<and>
         (wf_window s \<longrightarrow> out z' = out z @ take (avail_out z) (pending s))"
proof -
  let ?r = "if mode s = DONE then Z_STREAM_END else Z_DATA_ERROR"
  obtain r' s' z' where fl: "inflate_flush ?r s z = (r', s', z')" by (metis prod_cases3)
  have "inflate_blocks env s z r = Some (inflate_flush ?r s z)"
    using assms by (auto simp: inflate_blocks_def blocks_loop.simps [of env r s z] blocks_step_def)
  moreover have "r' = ?r" using inflate_flush_status [of ?r s z] fl by simp
  moreover have "mode s' = mode s" using own_frame_flush [OF fl] by (simp add: own_frame_def)
  moreover have "rest_in z' = rest_in z" using inflate_flush_in [OF fl] by simp
  moreover have "wf_window s \<longrightarrow> out z' = out z @ take (avail_out z) (pending s)"
    using inflate_flush_refines [OF _ fl] by blast
  ultimately show ?thesis using fl by (intro exI [of _ s'] exI [of _ z']) simp
qed

theorem terminal_modes_witness:
  "inflate_blocks ex_env (ex_state INF_ERROR) (ex_in [1, 2] 1) Z_OK \<noteq> None \<and>
   fst (the (inflate_blocks ex_env (ex_state INF_ERROR) (ex_in [1, 2] 1) Z_OK)) = Z_DATA_ERROR \<and>
   out (snd (snd (the (inflate_blocks ex_env (ex_state INF_ERROR) (ex_in [1, 2] 1) Z_OK)))) = [9, 4]"
proof -
  have m: "mode (ex_state INF_ERROR) = DONE \<or> mode (ex_state INF_ERROR) = INF_ERROR"
    "wf_window (ex_state INF_ERROR)" "pending (ex_state INF_ERROR) = [4, 1]"
    by (simp_all add: ex_state_def wf_window_def pending_def slice_def)
  from terminal_modes [OF m(1), of ex_env "ex_in [1, 2] 1" Z_OK] m(2,3) obtain s' z' where
    "inflate_blocks ex_env (ex_state INF_ERROR) (ex_in [1, 2] 1) Z_OK = Some (Z_DATA_ERROR, s', z')"
    "out z' = out (ex_in [1, 2] 1) @ take (avail_out (ex_in [1, 2] 1)) [4, 1]"
    by (auto simp: ex_state_def)
  then show ?thesis by (simp add: ex_in_def)
qed

subsection \<open>The end of a compressed block\<close>

text \<open>
  C6. \<^verbatim>\<open>case CODES\<close> at the end of a block (\<^verbatim>\<open>Z_STREAM_END\<close> from the codes
  decoder, which holds fewer than 16 bits, the assertion of line 299): the decoder
  is released; after a non-final block the pass continues in \<^verbatim>\<open>TYPE\<close> with the bit
  buffer as left; after the final block it continues in \<^verbatim>\<open>DRY\<close> with at most 7 bits
  in the buffer, one whole unused byte handed back to the input when there was one,
  and no input bit lost or created.
\<close>

theorem codes_step_end_of_block:
  assumes "codes_run env (the (codes s)) (io_of s) z r = (Z_STREAM_END, c, w, z1)"
    "bitk w < 16" "0 < pos_in z1" "pos_in z1 \<le> length (next_in z1)"
  shows "let res = codes_step env r s z; s' = flow_s res; z' = flow_z res in
    res = Cont Z_OK s' z' \<and> codes s' = None \<and> input_bits s' z' = input_bits w z1 \<and>
    (if last_blk s then mode s' = DRY \<and> bitk s' = (if 7 < bitk w then bitk w - 8 else bitk w) \<and> bitk s' < 8 \<and>
        rest_in z' = (if 7 < bitk w then next_in z1 ! (pos_in z1 - 1) # rest_in z1 else rest_in z1)
     else mode s' = TYPE_M \<and> bitk s' = bitk w \<and> z' = z1)"
proof (cases "last_blk s")
  case False
  with assms(1) show ?thesis by (simp add: codes_step_def Let_def input_bits_def)
next
  case True
  show ?thesis
  proof (cases "7 < bitk w")
    case big: True
    have r: "rest_in (z1\<lparr>pos_in := pos_in z1 - 1, total_in := total_in z1 - 1\<rparr>) =
             next_in z1 ! (pos_in z1 - 1) # rest_in z1"
      using assms(3,4) rest_in_Cons [of "z1\<lparr>pos_in := pos_in z1 - 1\<rparr>"] by (simp add: rest_in_def)
    have a: "avail_in (z1\<lparr>pos_in := pos_in z1 - 1, total_in := total_in z1 - 1\<rparr>) = Suc (avail_in z1)"
      using assms(3,4) by (simp add: avail_in_def)
    from assms(1,2) True big r a show ?thesis
      by (simp add: codes_step_def Let_def input_bits_def)
  next
    case small: False
    from assms(1) True small show ?thesis by (simp add: codes_step_def Let_def input_bits_def)
  qed
qed

theorem codes_step_end_of_block_witness:
  "mode (flow_s (codes_step ex_env Z_OK (ex_state CODES\<lparr>codes := Some (), last_blk := True, bitk := 10\<rparr>)
                 ((ex_in [7, 8] 0)\<lparr>pos_in := 2\<rparr>))) = DRY \<and>
   bitk (flow_s (codes_step ex_env Z_OK (ex_state CODES\<lparr>codes := Some (), last_blk := True, bitk := 10\<rparr>)
                 ((ex_in [7, 8] 0)\<lparr>pos_in := 2\<rparr>))) = 2 \<and>
   rest_in (flow_z (codes_step ex_env Z_OK (ex_state CODES\<lparr>codes := Some (), last_blk := True, bitk := 10\<rparr>)
                 ((ex_in [7, 8] 0)\<lparr>pos_in := 2\<rparr>))) = [8]"
proof -
  let ?s = "ex_state CODES\<lparr>codes := Some (), last_blk := True, bitk := 10\<rparr>" and ?z = "(ex_in [7, 8] 0)\<lparr>pos_in := 2\<rparr>"
  have h: "codes_run ex_env (the (codes ?s)) (io_of ?s) ?z Z_OK = (Z_STREAM_END, (), io_of ?s, ?z)"
    "bitk (io_of ?s) < 16" "0 < pos_in ?z" "pos_in ?z \<le> length (next_in ?z)"
    by (simp_all add: ex_env_def io_of_def ex_in_def)
  from codes_step_end_of_block [OF h] show ?thesis
    by (simp add: Let_def io_of_def ex_in_def ex_state_def rest_in_def)
qed

subsection \<open>A reachable error state\<close>

text \<open>
  A tree builder whose \<^verbatim>\<open>inflate_trees_bits\<close> rejects an over-subscribed set of
  code lengths (Kraft sum above 1) with \<^verbatim>\<open>Z_DATA_ERROR\<close>, as the real builder does,
  run on a dynamic block with \<^verbatim>\<open>HCLEN = 0\<close> and four code-length codes of length 1.
  The run reaches \<^verbatim>\<open>INF_ERROR\<close> with the length vector still allocated: a reachable
  state in which \<^verbatim>\<open>inflate_blocks_free\<close> leaks it (see \<open>free_leaks\<close>).
\<close>

definition ex_bad_env :: "(unit, unit) env" where
  "ex_bad_env = ex_env\<lparr>trees_bits := \<lambda>l b.
     if 128 < sum_list (map (\<lambda>n. if n = 0 then 0 else (2::nat) ^ (7 - n)) l) then Inl Z_DATA_ERROR
     else trees_bits ex_env l b\<rparr>"

lemma bad_tree_run:
  "map_option (\<lambda>(r, s, z). (r, mode s, blens s \<noteq> None, tb s, codes s))
     (inflate_blocks ex_bad_env ex_new (ex_call [5, 0, 146, 4]) Z_BUF_ERROR)
   = Some (Z_DATA_ERROR, INF_ERROR, True, None, None)"
  by (simp add: run_simps ex_bad_env_def ex_env_def,
      (subst blocks_loop.simps, simp add: run_simps table_step_def btree_step_def btree_read.simps
        btree_zero.simps border_def ex_bad_env_def ex_env_def)+)

lemma bad_tree_session:
  obtains s where "session ex_bad_env s" "mode s = INF_ERROR" "blens s \<noteq> None" "tb s = None" "codes s = None"
proof -
  obtain r' s' z' where eq: "inflate_blocks ex_bad_env ex_new (ex_call [5, 0, 146, 4]) Z_BUF_ERROR = Some (r', s', z')"
    using bad_tree_run by (cases "inflate_blocks ex_bad_env ex_new (ex_call [5, 0, 146, 4]) Z_BUF_ERROR") auto
  have "inflate_blocks_new (zalloc_ok ex_bad_env) None 8 = Some ex_new"
    by (simp add: ex_bad_env_def ex_env_def ex_new_def inflate_blocks_new_def)
  then have "session ex_bad_env ex_new" by (rule session.new)
  from session.call [OF this eq] bad_tree_run eq that show ?thesis by simp
qed

theorem session_owns_ok_witness:
  "\<exists>s. session ex_bad_env s \<and> mode s = INF_ERROR \<and> blens s \<noteq> None \<and> owns_ok s"
proof -
  obtain s where "session ex_bad_env s" "mode s = INF_ERROR" "blens s \<noteq> None"
    by (rule bad_tree_session)
  with session_owns_ok [OF this(1)] show ?thesis by blast
qed

end
