(* ===== verification/Roundtrip.thy ===== *)
theory Roundtrip
  imports Session
begin

text \<open>
  Stored blocks end to end. \<open>stored_block\<close> is the encoder of RFC 1951 section 3.2.4
  (one header byte, \<^verbatim>\<open>LEN\<close> and \<^verbatim>\<open>NLEN = ~LEN\<close> as 16-bit little-endian words, the
  data); the lemmas run \<^verbatim>\<open>case TYPE\<close>, \<^verbatim>\<open>case LENS\<close>, the \<^verbatim>\<open>STORED\<close> copy and
  \<^verbatim>\<open>case DRY\<close> on its output for any data, and the theorem composes them into one
  call of \<^verbatim>\<open>inflate_blocks\<close> on a fresh state.
\<close>

unbundle bit_operations_syntax

definition le16 :: "nat \<Rightarrow> byte list" where
  "le16 n = [of_nat n, of_nat (n div 256)]"

definition stored_block :: "bool \<Rightarrow> byte list \<Rightarrow> byte list" where
  "stored_block fin ds = of_bool fin # le16 (length ds) @ le16 (65535 - length ds) @ ds"

subsection \<open>The header bytes\<close>

lemma stored_header_word:
  assumes b: "unat (h :: uLong) = n + 65536 * (65535 - n)" and n: "n < 65536"
  shows "drop_bit 16 (NOT h) = h AND 0xFFFF \<and> (ucast (h AND 0xFFFF) :: uLong) = of_nat n"
proof -
  have lo: "unat (h AND 0xFFFF) = n" using n by (simp add: unat_and_ffff b)
  have "unat (drop_bit 16 (NOT h)) = (4294967295 - unat h) div 65536"
    unfolding unat_drop_bit_eq unat_not32 by (simp add: drop_bit_eq_div)
  also have "4294967295 - unat h = (65535 - n) + n * 65536" using b n by simp
  also have "((65535 - n) + n * 65536) div 65536 = n" by simp
  finally have "unat (drop_bit 16 (NOT h)) = n" .
  with lo have "drop_bit 16 (NOT h) = h AND 0xFFFF" by (simp add: word_unat_eq_iff)
  moreover have "(ucast (h AND 0xFFFF) :: uLong) = of_nat n"
    using lo by (metis ucast_id of_nat_unat)
  ultimately show ?thesis by simp
qed

lemma nextbyte_Cons:
  assumes "rest_in z = x # t"
  shows "avail_in z \<noteq> 0 \<and> nextbyte z = (x, z\<lparr>pos_in := Suc (pos_in z), total_in := Suc (total_in z)\<rparr>) \<and>
         rest_in (z\<lparr>pos_in := Suc (pos_in z), total_in := Suc (total_in z)\<rparr>) = t"
proof -
  have "drop (pos_in z) (next_in z) = x # t" using assms by (simp add: rest_in_def)
  then have "pos_in z < length (next_in z)" "next_in z ! pos_in z = x" "drop (Suc (pos_in z)) (next_in z) = t"
    by (metis Cons_nth_drop_Suc drop_all list.distinct(1) list.inject not_le)+
  then show ?thesis by (simp add: avail_in_def nextbyte_def rest_in_def)
qed

lemma type_step_stored:
  assumes "bitk s = 0" "bitb s = 0" "rest_in z = of_bool fin # t"
  shows "type_step env r s z =
           Cont Z_OK (s\<lparr>last_blk := fin, mode := LENS\<rparr>) (z\<lparr>pos_in := Suc (pos_in z), total_in := Suc (total_in z)\<rparr>)"
proof -
  note nb = nextbyte_Cons [OF assms(3)]
  have "needbits 3 r s z = Cont Z_OK (s\<lparr>bitb := of_bool fin, bitk := 8\<rparr>) (z\<lparr>pos_in := Suc (pos_in z), total_in := Suc (total_in z)\<rparr>)"
    using nb assms(1,2) by (simp add: needbits.simps [of 3 r s] needbits.simps [of 3 Z_OK])
  then show ?thesis using assms(1,2)
    by (cases fin) (simp_all add: type_step_def Let_def dumpbits_def)
qed
lemma unat_le16:
  assumes "n < 65536"
  shows "unat (of_nat n :: byte) + 256 * unat (of_nat (n div 256) :: byte) = n"
proof -
  have "n div 256 < 256" using assms by simp
  then show ?thesis by (simp add: unat_of_nat)
qed

lemma needbits_header:
  assumes "bitk s = 0" "bitb s = 0" "rest_in z = a # b # c # d # t"
  shows "needbits 32 r s z =
    Cont Z_OK (s\<lparr>bitb := ((((0 OR push_bit 0 (ucast a)) OR push_bit 8 (ucast b)) OR push_bit 16 (ucast c)) OR push_bit 24 (ucast d)),
                 bitk := 32\<rparr>)
      (z\<lparr>pos_in := pos_in z + 4, total_in := total_in z + 4\<rparr>)"
proof -
  define z1 where "z1 = z\<lparr>pos_in := Suc (pos_in z), total_in := Suc (total_in z)\<rparr>"
  define z2 where "z2 = z1\<lparr>pos_in := Suc (pos_in z1), total_in := Suc (total_in z1)\<rparr>"
  define z3 where "z3 = z2\<lparr>pos_in := Suc (pos_in z2), total_in := Suc (total_in z2)\<rparr>"
  define z4 where "z4 = z3\<lparr>pos_in := Suc (pos_in z3), total_in := Suc (total_in z3)\<rparr>"
  note n0 = nextbyte_Cons [OF assms(3), folded z1_def]
  note n1 = nextbyte_Cons [OF n0 [THEN conjunct2, THEN conjunct2], folded z2_def]
  note n2 = nextbyte_Cons [OF n1 [THEN conjunct2, THEN conjunct2], folded z3_def]
  note n3 = nextbyte_Cons [OF n2 [THEN conjunct2, THEN conjunct2], folded z4_def]
  have z4: "z4 = z\<lparr>pos_in := pos_in z + 4, total_in := total_in z + 4\<rparr>"
    by (simp add: z1_def z2_def z3_def z4_def)
  show ?thesis
    using n0 n1 n2 n3 assms(1,2) unfolding z4 [symmetric]
    by (simp add: needbits.simps [of 32 r s] needbits.simps [of 32 Z_OK])
qed

lemma header_word_value:
  assumes "n < 65536"
  shows "unat ((((0 OR push_bit 0 (ucast (of_nat n :: byte))) OR push_bit 8 (ucast (of_nat (n div 256) :: byte)))
            OR push_bit 16 (ucast (of_nat (65535 - n) :: byte))) OR push_bit 24 (ucast (of_nat ((65535 - n) div 256) :: byte)) :: uLong)
         = n + 65536 * (65535 - n)"
proof -
  let ?a = "of_nat n :: byte" and ?b = "of_nat (n div 256) :: byte"
  let ?c = "of_nat (65535 - n) :: byte" and ?d = "of_nat ((65535 - n) div 256) :: byte"
  have u: "unat ?a + 256 * unat ?b = n" "unat ?c + 256 * unat ?d = 65535 - n"
    using unat_le16 [of n] unat_le16 [of "65535 - n"] assms by simp_all
  have ba: "unat ?a < 256" "unat ?b < 256" "unat ?c < 256" using unsigned_less [of ?a] unsigned_less [of ?b] unsigned_less [of ?c] by simp_all
  have s1: "unat (0 OR push_bit 0 (ucast ?a) :: uLong) = unat ?a"
    using or_push_byte_add [of 0 0 ?a] by simp
  have s2: "unat ((0 OR push_bit 0 (ucast ?a)) OR push_bit 8 (ucast ?b) :: uLong) = unat ?a + 256 * unat ?b"
    using or_push_byte_add [of "0 OR push_bit 0 (ucast ?a)" 8 ?b] s1 ba by simp
  have s3: "unat (((0 OR push_bit 0 (ucast ?a)) OR push_bit 8 (ucast ?b)) OR push_bit 16 (ucast ?c) :: uLong) = n + 65536 * unat ?c"
    using or_push_byte_add [of "(0 OR push_bit 0 (ucast ?a)) OR push_bit 8 (ucast ?b)" 16 ?c] s2 u(1) assms by simp
  have "unat ((((0 OR push_bit 0 (ucast ?a)) OR push_bit 8 (ucast ?b)) OR push_bit 16 (ucast ?c)) OR push_bit 24 (ucast ?d) :: uLong)
        = n + 65536 * unat ?c + 16777216 * unat ?d"
    using or_push_byte_add [of "((0 OR push_bit 0 (ucast ?a)) OR push_bit 8 (ucast ?b)) OR push_bit 16 (ucast ?c)" 24 ?d] s3 ba assms by simp
  with u(2) show ?thesis by simp
qed

lemma lens_step_stored:
  assumes "bitk s = 0" "bitb s = 0" "rest_in z = le16 n @ le16 (65535 - n) @ t" "n < 65536"
  shows "\<exists>h. lens_step r s z =
           Cont Z_OK (s\<lparr>bitb := h, bitk := 0, left := of_nat n, mode := if n = 0 then TYPE_M else STORED\<rparr>)
             (z\<lparr>pos_in := pos_in z + 4, total_in := total_in z + 4\<rparr>)"
proof -
  define h where "h = ((((0 OR push_bit 0 (ucast (of_nat n :: byte))) OR push_bit 8 (ucast (of_nat (n div 256) :: byte)))
            OR push_bit 16 (ucast (of_nat (65535 - n) :: byte))) OR push_bit 24 (ucast (of_nat ((65535 - n) div 256) :: byte)) :: uLong)"
  have nb: "needbits 32 r s z = Cont Z_OK (s\<lparr>bitb := h, bitk := 32\<rparr>) (z\<lparr>pos_in := pos_in z + 4, total_in := total_in z + 4\<rparr>)"
    unfolding h_def using needbits_header [OF assms(1,2), of z] assms(3) by (simp add: le16_def)
  have hw: "drop_bit 16 (NOT h) = h AND 0xFFFF" "(ucast (h AND 0xFFFF) :: uLong) = of_nat n"
    using stored_header_word [OF header_word_value [OF assms(4)] assms(4)] unfolding h_def by simp_all
  have "unat (of_nat n :: uLong) = n" using assms(4) by (simp add: unat_of_nat)
  then have nz: "(of_nat n :: uLong) \<noteq> 0 \<longleftrightarrow> n \<noteq> 0"
    by (cases "n = 0") (simp, metis unsigned_0)
  have "lens_step r s z = Cont Z_OK (s\<lparr>bitb := h, bitk := 32, bitk := 0, left := of_nat n,
            mode := if of_nat n \<noteq> (0 :: uLong) then STORED else TYPE_M\<rparr>) (z\<lparr>pos_in := pos_in z + 4, total_in := total_in z + 4\<rparr>)"
  proof -
    have sel: "bitb (s\<lparr>bitb := h, bitk := 32\<rparr>) = h" by simp
    have c: "\<not> (drop_bit 16 (NOT (bitb (s\<lparr>bitb := h, bitk := 32\<rparr>))) \<noteq> bitb (s\<lparr>bitb := h, bitk := 32\<rparr>) AND 0xFFFF)"
      unfolding sel using hw(1) by (simp only: not_not)
    have sel2: "bitb (s\<lparr>bitb := h, bitk := 32, bitk := 0\<rparr>) = h" by simp
    show ?thesis
      unfolding lens_step_def nb flow.case if_not_P [OF c] Let_def sel2 hw(2)
      by simp
  qed
  then show ?thesis using nz by (intro exI [of _ h]) simp
qed

lemma take_update_Suc: "i < length xs \<Longrightarrow> take (Suc i) (xs[i := c]) = take i xs @ [c]"
  by (simp add: take_Suc_conv_app_nth)

lemma stored_copy_fill:
  assumes "wread s = 0" "wwrite s + unat (left s) \<le> length (window s)" "left s \<noteq> 0"
    "unat (left s) \<le> avail_in z"
  shows "\<exists>W. stored_copy r s z =
      Cont Z_OK (s\<lparr>window := W, wwrite := wwrite s + unat (left s), left := 0,
                   mode := if last_blk s then DRY else TYPE_M\<rparr>)
        (z\<lparr>pos_in := pos_in z + unat (left s), total_in := total_in z + unat (left s)\<rparr>) \<and>
      length W = length (window s) \<and>
      take (wwrite s + unat (left s)) W = take (wwrite s) (window s) @ take (unat (left s)) (rest_in z)"
  using assms
proof (induction r s z rule: stored_copy.induct)
  case (1 r s z)
  have k0: "0 < unat (left s)" using "1.prems"(3) by (simp add: unat_gt_0)
  then obtain c t where rz: "rest_in z = c # t"
    using "1.prems"(4) by (cases "rest_in z") (simp_all flip: avail_in_rest_in)
  note nb = nextbyte_Cons [OF rz]
  define z2 where "z2 = z\<lparr>pos_in := Suc (pos_in z), total_in := Suc (total_in z)\<rparr>"
  define s2 where "s2 = (outbyte c s)\<lparr>left := left s - 1\<rparr>"
  have wl: "wwrite s < length (window s)" using "1.prems"(2) k0 by simp
  have no: "needout Z_OK s z = Cont Z_OK s z"
    using wl "1.prems"(1) by (simp add: needout_def wavail_def)
  have step: "stored_copy r s z =
      (if left s2 \<noteq> 0 then stored_copy Z_OK s2 z2
       else Cont Z_OK (s2\<lparr>mode := if last_blk s2 then DRY else TYPE_M\<rparr>) z2)"
    using nb no by (simp add: stored_copy.simps [of r s z] s2_def z2_def Let_def outbyte_def)
  have l2: "unat (left s2) = unat (left s) - 1"
    using "1.prems"(3) by (simp add: s2_def outbyte_def unat_minus_one)
  have w2: "window s2 = (window s)[wwrite s := c]" "wwrite s2 = Suc (wwrite s)" "wread s2 = 0"
    "last_blk s2 = last_blk s"
    using "1.prems"(1) by (simp_all add: s2_def outbyte_def)
  have t2: "take (wwrite s2) (window s2) = take (wwrite s) (window s) @ [c]"
    using wl w2 by (simp add: take_update_Suc)
  show ?case
  proof (cases "left s2 = 0")
    case True
    then have "unat (left s) = 1" using l2 k0 by simp
    with True step t2 w2 show ?thesis
      by (intro exI [of _ "window s2"]) (simp add: s2_def z2_def outbyte_def rz)
  next
    case False
    have rz2: "rest_in z2 = t" using nb by (simp add: z2_def)
    have IH: "\<exists>W. stored_copy Z_OK s2 z2 =
      Cont Z_OK (s2\<lparr>window := W, wwrite := wwrite s2 + unat (left s2), left := 0,
                   mode := if last_blk s2 then DRY else TYPE_M\<rparr>)
        (z2\<lparr>pos_in := pos_in z2 + unat (left s2), total_in := total_in z2 + unat (left s2)\<rparr>) \<and>
      length W = length (window s2) \<and>
      take (wwrite s2 + unat (left s2)) W = take (wwrite s2) (window s2) @ take (unat (left s2)) (rest_in z2)"
    proof -
      have av: "avail_in z \<noteq> 0" using nb by simp
      have nbz: "nextbyte z = (c, z2)" using nb by (simp add: z2_def)
      have s2': "(outbyte c s)\<lparr>left := left (outbyte c s) - 1\<rparr> = s2" by (simp add: s2_def outbyte_def)
      note IH0 = "1.IH" [OF av no refl nbz [symmetric] refl refl, unfolded s2']
      show ?thesis
      proof (rule IH0)
        show "wread s2 = 0" "left s2 \<noteq> 0" by (simp_all add: w2 False)
        show "wwrite s2 + unat (left s2) \<le> length (window s2)" using "1.prems"(2) l2 w2 k0 by simp
        have "avail_in z = Suc (avail_in z2)"
          using avail_in_rest_in [of z] avail_in_rest_in [of z2] rz rz2 by simp
        then show "unat (left s2) \<le> avail_in z2" using "1.prems"(4) l2 by simp
      qed (simp add: False)
    qed
    then obtain W where eq: "stored_copy Z_OK s2 z2 =
      Cont Z_OK (s2\<lparr>window := W, wwrite := wwrite s2 + unat (left s2), left := 0,
                   mode := if last_blk s2 then DRY else TYPE_M\<rparr>)
        (z2\<lparr>pos_in := pos_in z2 + unat (left s2), total_in := total_in z2 + unat (left s2)\<rparr>)"
      and lw: "length W = length (window s2)"
      and tw: "take (wwrite s2 + unat (left s2)) W = take (wwrite s2) (window s2) @ take (unat (left s2)) (rest_in z2)"
      by blast
    have k: "wwrite s2 + unat (left s2) = wwrite s + unat (left s)" using w2 l2 k0 by simp
    have tk: "take (unat (left s)) (c # t) = c # take (unat (left s2)) t"
      using l2 k0 by (cases "unat (left s)") simp_all
    show ?thesis
    proof (intro exI [of _ W] conjI)
      show "length W = length (window s)" using lw w2 by simp
      show "take (wwrite s + unat (left s)) W = take (wwrite s) (window s) @ take (unat (left s)) (rest_in z)"
        using tw k t2 rz rz2 tk by simp
      show "stored_copy r s z = Cont Z_OK (s\<lparr>window := W, wwrite := wwrite s + unat (left s), left := 0,
                   mode := if last_blk s then DRY else TYPE_M\<rparr>)
        (z\<lparr>pos_in := pos_in z + unat (left s), total_in := total_in z + unat (left s)\<rparr>)"
        using step False eq k l2 k0 w2 by (simp add: s2_def z2_def outbyte_def)
    qed
  qed
qed
lemma blocks_loop_Cont:
  "blocks_step env r s z = Cont r' s' z' \<Longrightarrow> blocks_loop env r s z = blocks_loop env r' s' z'"
  by (simp add: blocks_loop.simps [of env r s z])

lemma blocks_loop_Leave:
  "blocks_step env r s z = Leave r' s' z' \<Longrightarrow> blocks_loop env r s z = Some (inflate_flush r' s' z')"
  by (simp add: blocks_loop.simps [of env r s z])

lemma rest_in_skip:
  "rest_in (z\<lparr>pos_in := pos_in z + k\<rparr>) = drop k (rest_in z)"
  "rest_in (z\<lparr>total_in := t\<rparr>) = rest_in z"
  by (simp_all add: rest_in_def add.commute)

lemma new_fields:
  assumes "inflate_blocks_new za c w = Some s"
  shows "bitb s = 0 \<and> bitk s = 0 \<and> mode s = TYPE_M \<and> wread s = 0 \<and> wwrite s = 0 \<and>
         length (window s) = w"
  using assms by (auto simp: inflate_blocks_new_def split: if_splits)

subsection \<open>Decoding an encoded block\<close>

text \<open>
  C5. Round trip of a stored block: the bytes of a final stored block carrying
  \<open>ds\<close> (header byte \<^verbatim>\<open>01\<close>, \<^verbatim>\<open>LEN\<close> and \<^verbatim>\<open>NLEN\<close> little-endian, then \<open>ds\<close>),
  followed by any bytes \<open>rest\<close>, given to one call of \<^verbatim>\<open>inflate_blocks\<close> on a
  fresh state from \<^verbatim>\<open>inflate_blocks_new\<close>, decode to \<open>ds\<close>: the call returns
  \<^verbatim>\<open>Z_STREAM_END\<close> in \<^verbatim>\<open>DONE\<close>, has appended exactly \<open>ds\<close> to the output and
  has consumed exactly the block. It needs \<open>ds\<close> non-empty (an empty final block
  goes to \<^verbatim>\<open>TYPE\<close>, see \<open>lens_step_lengths\<close>), to fit the window and the
  output space; the tree builder and codes decoder play no part.
\<close>

theorem stored_block_roundtrip:
  assumes new: "inflate_blocks_new za c w = Some s"
    and ds: "ds \<noteq> []" "length ds < 65536" "length ds \<le> w" "length ds \<le> avail_out z"
    and z: "rest_in z = stored_block True ds @ rest"
  shows "\<exists>s' z'. inflate_blocks env s z r = Some (Z_STREAM_END, s', z') \<and>
           out z' = out z @ ds \<and> rest_in z' = rest \<and> mode s' = DONE"
proof -
  let ?n = "length ds"
  note f = new_fields [OF new]
  define z1 where "z1 = z\<lparr>pos_in := Suc (pos_in z), total_in := Suc (total_in z)\<rparr>"
  define s1 where "s1 = s\<lparr>last_blk := True, mode := LENS\<rparr>"
  have "rest_in z = of_bool True # (le16 ?n @ le16 (65535 - ?n) @ ds @ rest)"
    using z by (simp add: stored_block_def)
  note t1 = type_step_stored [OF _ _ this, where env = env and r = r]
  have st1: "blocks_step env r s z = Cont Z_OK s1 z1"
    using t1 f by (simp add: blocks_step_def s1_def z1_def)
  have r1: "rest_in z1 = le16 ?n @ le16 (65535 - ?n) @ ds @ rest"
    using nextbyte_Cons [OF \<open>rest_in z = _ # _\<close>] by (simp add: z1_def)
  obtain h where st2: "lens_step Z_OK s1 z1 =
      Cont Z_OK (s1\<lparr>bitb := h, bitk := 0, left := of_nat ?n, mode := STORED\<rparr>)
        (z1\<lparr>pos_in := pos_in z1 + 4, total_in := total_in z1 + 4\<rparr>)"
    using lens_step_stored [of s1 z1 ?n "ds @ rest" Z_OK] r1 f ds(1,2) by (auto simp: s1_def)
  define s2 where "s2 = s1\<lparr>bitb := h, bitk := 0, left := of_nat ?n, mode := STORED\<rparr>"
  define z2 where "z2 = z1\<lparr>pos_in := pos_in z1 + 4, total_in := total_in z1 + 4\<rparr>"
  have r2: "rest_in z2 = ds @ rest" using r1 by (simp add: z2_def rest_in_skip le16_def)
  have ln: "unat (left s2) = ?n" using ds(2) by (simp add: s2_def unat_of_nat)
  have "left s2 \<noteq> 0" using ln ds(1) by (metis length_0_conv unsigned_0)
  moreover have "wread s2 = 0" "wwrite s2 + unat (left s2) \<le> length (window s2)" "unat (left s2) \<le> avail_in z2"
    using f ln ds(3) r2 avail_in_rest_in [of z2] by (simp_all add: s2_def s1_def)
  ultimately obtain W where st3: "stored_copy Z_OK s2 z2 =
      Cont Z_OK (s2\<lparr>window := W, wwrite := wwrite s2 + unat (left s2), left := 0,
                   mode := if last_blk s2 then DRY else TYPE_M\<rparr>)
        (z2\<lparr>pos_in := pos_in z2 + unat (left s2), total_in := total_in z2 + unat (left s2)\<rparr>)"
    and lw: "length W = length (window s2)"
    and tw: "take (wwrite s2 + unat (left s2)) W = take (wwrite s2) (window s2) @ take (unat (left s2)) (rest_in z2)"
    using stored_copy_fill [of s2 z2 Z_OK] by blast
  define s3 where "s3 = s2\<lparr>window := W, wwrite := ?n, left := 0, mode := DRY\<rparr>"
  define z3 where "z3 = z2\<lparr>pos_in := pos_in z2 + ?n, total_in := total_in z2 + ?n\<rparr>"
  have st3': "stored_copy Z_OK s2 z2 = Cont Z_OK s3 z3"
    using st3 ln f by (simp add: s3_def z3_def s2_def s1_def)
  have "0 < w" using ds(1,3) by (cases ds) simp_all
  then have wf3: "wf_window s3" using lw f ds(3) by (simp add: wf_window_def s3_def s2_def s1_def)
  have p3: "pending s3 = ds"
    using tw ln f by (simp add: pending_def slice_def s3_def s2_def s1_def r2)
  have "rest_in z3 = drop (Suc (Suc (Suc (Suc (Suc ?n))))) (rest_in z)"
  proof -
    have e: "length ds + (pos_in z + 5) = Suc (Suc (Suc (Suc (Suc (length ds + pos_in z)))))" by simp
    show ?thesis by (simp add: z3_def z2_def z1_def rest_in_def ac_simps, simp only: e)
  qed
  then have o3: "out z3 = out z" "avail_out z3 = avail_out z" "rest_in z3 = rest"
    using z by (simp_all add: z3_def z2_def z1_def stored_block_def le16_def)
  obtain r4 s4 z4 where fl4: "inflate_flush Z_OK s3 z3 = (r4, s4, z4)" by (metis prod_cases3)
  note ref4 = inflate_flush_refines [OF wf3 fl4]
  have e4: "wread s4 = wwrite s4" using ref4 p3 ds(4) o3 pending_Nil_iff [of s4] by simp
  have r4: "r4 = Z_OK" using inflate_flush_status [of Z_OK s3 z3] fl4 by simp
  have st4: "dry_step Z_OK s3 z3 = Cont Z_OK (s4\<lparr>mode := DONE\<rparr>) z4"
    using fl4 e4 r4 by (simp add: dry_step_def)
  obtain r6 s6 z6 where fl6: "inflate_flush Z_STREAM_END (s4\<lparr>mode := DONE\<rparr>) z4 = (r6, s6, z6)"
    by (metis prod_cases3)
  have wf5: "wf_window (s4\<lparr>mode := DONE\<rparr>)" "pending (s4\<lparr>mode := DONE\<rparr>) = []"
  proof -
    have "pending (s4\<lparr>mode := DONE\<rparr>) = pending s4" "wf_window (s4\<lparr>mode := DONE\<rparr>) = wf_window s4"
      by (simp_all add: pending_def wf_window_def)
    then show "wf_window (s4\<lparr>mode := DONE\<rparr>)" "pending (s4\<lparr>mode := DONE\<rparr>) = []"
      using ref4 p3 o3 ds(4) by simp_all
  qed
  note ref6 = inflate_flush_refines [OF wf5(1) fl6]
  have "blocks_loop env r s z = Some (r6, s6, z6)"
  proof -
    have "blocks_loop env r s z = blocks_loop env Z_OK s1 z1" by (rule blocks_loop_Cont [OF st1])
    also have "\<dots> = blocks_loop env Z_OK s2 z2"
    proof (rule blocks_loop_Cont)
      have "mode s1 = LENS" by (simp add: s1_def)
      then show "blocks_step env Z_OK s1 z1 = Cont Z_OK s2 z2"
        by (simp add: blocks_step_def st2 s2_def z2_def)
    qed
    also have "\<dots> = blocks_loop env Z_OK s3 z3"
    proof (rule blocks_loop_Cont)
      have "mode s2 = STORED" by (simp add: s2_def)
      then show "blocks_step env Z_OK s2 z2 = Cont Z_OK s3 z3"
        by (simp add: blocks_step_def st3')
    qed
    also have "\<dots> = blocks_loop env Z_OK (s4\<lparr>mode := DONE\<rparr>) z4"
    proof (rule blocks_loop_Cont)
      have "mode s3 = DRY" by (simp add: s3_def)
      then show "blocks_step env Z_OK s3 z3 = Cont Z_OK (s4\<lparr>mode := DONE\<rparr>) z4"
        by (simp add: blocks_step_def st4)
    qed
    also have "\<dots> = Some (r6, s6, z6)"
      by (subst blocks_loop_Leave [of _ _ _ _ Z_STREAM_END "s4\<lparr>mode := DONE\<rparr>" z4])
         (simp_all add: blocks_step_def fl6)
    finally show ?thesis .
  qed
  moreover have "r6 = Z_STREAM_END" using inflate_flush_status [of Z_STREAM_END "s4\<lparr>mode := DONE\<rparr>" z4] fl6 by simp
  moreover have "mode s6 = DONE" using inflate_flush_blocks [OF fl6] by simp
  moreover have "rest_in z6 = rest" using inflate_flush_in [OF fl6] inflate_flush_in [OF fl4] o3 by simp
  moreover have "out z6 = out z @ ds" using ref6 wf5(2) ref4 p3 o3 ds(4) by simp
  ultimately show ?thesis by (simp add: inflate_blocks_def)
qed

theorem stored_block_roundtrip_witness:
  "\<exists>s' z'. inflate_blocks ex_env (the (inflate_blocks_new (\<lambda>_. True) None 2))
      \<lparr>next_in = stored_block True [65, 66] @ [7], pos_in = 0, total_in = 0, out = [9],
       avail_out = 2, total_out = 0, msg = []\<rparr> Z_OK = Some (Z_STREAM_END, s', z') \<and>
    out z' = [9, 65, 66] \<and> rest_in z' = [7] \<and> mode s' = DONE"
  using stored_block_roundtrip [of "\<lambda>_. True" None 2 "the (inflate_blocks_new (\<lambda>_. True) None 2)"
      "[65, 66]" "\<lparr>next_in = stored_block True [65, 66] @ [7], pos_in = 0, total_in = 0, out = [9],
       avail_out = 2, total_out = 0, msg = []\<rparr>" "[7]" ex_env Z_OK]
  by (simp add: inflate_blocks_new_def rest_in_def)
end
