(* ===== verification/Stored.thy ===== *)
theory Stored
  imports Steps
begin

text \<open>
  The copy loop of \<^verbatim>\<open>case STORED\<close> (\<^verbatim>\<open>src/infblock.c\<close>, lines 161--168) against
  its abstract meaning: the bytes it takes from the input are appended, in order, to
  everything the decoder has produced (the bytes delivered to the caller followed by
  those still pending in the window), and it stops after exactly \<^verbatim>\<open>left\<close> bytes or
  returns early, with \<^verbatim>\<open>left\<close> counting the bytes still to copy.
\<close>

lemma produced_blocks_upd [simp]:
  "produced (s\<lparr>left := n\<rparr>) z = produced s z" "produced (s\<lparr>mode := m\<rparr>) z = produced s z"
  by (simp_all add: produced_def)

lemma nextbyte_rest:
  assumes "avail_in z \<noteq> 0" "nextbyte z = (c, z')"
  shows "rest_in z = c # rest_in z' \<and> avail_in z' = avail_in z - 1 \<and> out z' = out z"
  using assms rest_in_Cons [of z]
  by (auto simp: nextbyte_def avail_in_def rest_in_def)

lemma outbyte_produced:
  assumes "wf_window s" "wavail s \<noteq> 0"
  shows "produced (outbyte c s) z = produced s z @ [c] \<and> wf_window (outbyte c s)"
  using outbyte_pending [OF assms] by (simp add: produced_def)

lemma unat_left_dec:
  "(n :: uLong) \<noteq> 0 \<Longrightarrow> unat (n - 1) = unat n - 1"
  by (simp add: unat_minus_one)

text \<open>
  C4. \<^verbatim>\<open>case STORED\<close> refines "append the next \<^verbatim>\<open>left\<close> input bytes to the output":
  with a well-formed window and \<^verbatim>\<open>left \<noteq> 0\<close>, the \<open>k\<close> bytes it consumes are the
  next \<open>k\<close> input bytes and are appended to the produced sequence (delivered bytes, then
  pending window bytes); it continues after exactly \<^verbatim>\<open>left\<close> bytes in \<^verbatim>\<open>DRY\<close> (last
  block) or \<^verbatim>\<open>TYPE\<close>, and otherwise returns in \<^verbatim>\<open>STORED\<close> with \<^verbatim>\<open>left\<close> reduced by
  \<open>k\<close>, so that the next call resumes where this one stopped.
\<close>

theorem stored_copy_effect:
  assumes "wf_window s" "left s \<noteq> 0"
  shows "let res = stored_copy r s z; s' = flow_s res; z' = flow_z res; k = avail_in z - avail_in z' in
    produced s' z' = produced s z @ take k (rest_in z) \<and> rest_in z' = drop k (rest_in z) \<and>
    avail_in z' \<le> avail_in z \<and> wf_window s' \<and>
    (flow_cont res \<longrightarrow> k = unat (left s) \<and> mode s' = (if last_blk s then DRY else TYPE_M)) \<and>
    (\<not> flow_cont res \<longrightarrow> k < unat (left s) \<and> unat (left s') = unat (left s) - k \<and> mode s' = mode s)"
  using assms
proof (induction r s z rule: stored_copy.induct)
  case (1 r s z)
  show ?case
  proof (cases "avail_in z = 0")
    case True
    with "1.prems" avail_in_rest_in [of z] show ?thesis
      by (simp add: stored_copy.simps [of r s z] unat_gt_0 del: avail_in_rest_in)
  next
    case False
    show ?thesis
    proof (cases "needout Z_OK s z")
      case (Leave r1 s1 z1)
      from needout_produced [OF "1.prems"(1), of Z_OK z] needout_in [of Z_OK s z] Leave
      have "produced s1 z1 = produced s z" "wf_window s1" "avail_in z1 = avail_in z" "rest_in z1 = rest_in z"
        by simp_all
      moreover have "left s1 = left s" "mode s1 = mode s"
        using win_frame_blocks [OF needout_frame [of Z_OK s z, unfolded Leave flow_s.simps]] by simp_all
      ultimately show ?thesis using False Leave "1.prems"(2)
        by (simp add: stored_copy.simps [of r s z] unat_gt_0)
    next
      case (Cont r1 s1 z1)
      from needout_produced [OF "1.prems"(1), of Z_OK z] needout_in [of Z_OK s z] Cont
      have p1: "produced s1 z1 = produced s z" "wf_window s1" "avail_in z1 = avail_in z" "rest_in z1 = rest_in z"
        by simp_all
      have f1: "left s1 = left s" "last_blk s1 = last_blk s" "mode s1 = mode s"
        using win_frame_blocks [OF needout_frame [of Z_OK s z, unfolded Cont flow_s.simps]] by simp_all
      obtain c z2 where nx: "nextbyte z1 = (c, z2)" by fastforce
      from nextbyte_rest [OF _ nx] p1 False
      have n: "rest_in z = c # rest_in z2" "avail_in z2 = avail_in z - 1" "out z2 = out z1" by simp_all
      define s2 where "s2 = outbyte c s1\<lparr>left := left s1 - 1\<rparr>"
      from outbyte_produced [OF p1(2) needout_Cont_space [OF Cont], of c z1]
      have p2: "produced s2 z2 = produced s z @ [c]" "wf_window s2"
        using p1(1) n(3) by (simp_all add: s2_def produced_def)
      have l2: "unat (left s2) = unat (left s) - 1" using "1.prems"(2) f1
        by (simp add: s2_def outbyte_def unat_left_dec)
      show ?thesis
      proof (cases "left s2 = 0")
        case True
        then have eq: "stored_copy r s z = Cont r1 (s2\<lparr>mode := if last_blk s2 then DRY else TYPE_M\<rparr>) z2"
          using False Cont nx by (simp add: stored_copy.simps [of r s z] s2_def outbyte_def)
        have "0 < unat (left s)" using "1.prems"(2) by (simp add: unat_gt_0)
        moreover have "unat (left s2) = 0" using True by simp
        ultimately have "unat (left s) = 1" using l2 by linarith
        with eq p2 n f1 False show ?thesis
          by (simp add: s2_def outbyte_def)
      next
        case nz: False
        then have eq: "stored_copy r s z = stored_copy r1 s2 z2"
          using False Cont nx by (simp add: stored_copy.simps [of r s z] s2_def outbyte_def)
        have IH: "let res = stored_copy r1 s2 z2; s' = flow_s res; z' = flow_z res;
                      k = avail_in z2 - avail_in z' in
            produced s' z' = produced s2 z2 @ take k (rest_in z2) \<and> rest_in z' = drop k (rest_in z2) \<and>
            avail_in z' \<le> avail_in z2 \<and> wf_window s' \<and>
            (flow_cont res \<longrightarrow> k = unat (left s2) \<and> mode s' = (if last_blk s2 then DRY else TYPE_M)) \<and>
            (\<not> flow_cont res \<longrightarrow> k < unat (left s2) \<and> unat (left s') = unat (left s2) - k \<and> mode s' = mode s2)"
          using "1.IH" [OF False Cont refl nx [symmetric] refl refl] nz p2(2)
          by (simp add: s2_def outbyte_def)
        have m2: "last_blk s2 = last_blk s" "mode s2 = mode s" using f1 by (simp_all add: s2_def outbyte_def)
        obtain z' where z': "flow_z (stored_copy r1 s2 z2) = z'" by simp
        from IH z' have le: "avail_in z' \<le> avail_in z2" by (simp add: Let_def)
        with n False have k: "avail_in z - avail_in z' = Suc (avail_in z2 - avail_in z')" by simp
        show ?thesis
          unfolding eq Let_def z' k using IH z' n p2 l2 m2 False "1.prems"(2) le
          by (auto simp: Let_def unat_gt_0 split: flow.splits)
      qed
    qed
  qed
qed

theorem stored_copy_effect_witness:
  "produced (flow_s (stored_copy Z_OK (ex_state STORED\<lparr>left := 2\<rparr>) (ex_in [65, 66] 5)))
            (flow_z (stored_copy Z_OK (ex_state STORED\<lparr>left := 2\<rparr>) (ex_in [65, 66] 5))) = [9, 4, 1, 65, 66] \<and>
   mode (flow_s (stored_copy Z_OK (ex_state STORED\<lparr>left := 2\<rparr>) (ex_in [65, 66] 5))) = TYPE_M"
proof -
  let ?s = "ex_state STORED\<lparr>left := 2\<rparr>" and ?z = "ex_in [65, 66] 5"
  have h: "wf_window ?s" "left ?s \<noteq> 0" by (simp_all add: ex_state_def wf_window_def)
  have c: "flow_cont (stored_copy Z_OK ?s ?z) \<and> avail_in (flow_z (stored_copy Z_OK ?s ?z)) = 0"
    by (simp add: stored_copy.simps ex_state_def ex_in_def avail_in_def needout_def wavail_def wrap_def
        inflate_flush_def flush_copy_def update_check_def Let_def nextbyte_def outbyte_def)
  have p: "produced ?s ?z = [9, 4, 1]" "rest_in ?z = [65, 66]" "avail_in ?z = 2" "last_blk ?s = False"
    by (simp_all add: produced_def pending_def slice_def ex_state_def ex_in_def rest_in_def avail_in_def)
  from stored_copy_effect [OF h, of Z_OK ?z] c p show ?thesis by (simp add: Let_def)
qed

end
