(* ===== verification/Dynamic.thy ===== *)
theory Dynamic
  imports Termination
begin

text \<open>
  The header of a dynamic block (\<^verbatim>\<open>case TABLE\<close>, \<^verbatim>\<open>BTREE\<close> and \<^verbatim>\<open>DTREE\<close> of
  \<^verbatim>\<open>src/infblock.c\<close>): the 14-bit header word and the allocation of the length
  vector, the code-length code lengths stored in the order \<^verbatim>\<open>border\<close>, and the
  code lengths with their repeat codes, whose copies stay inside the vector.
\<close>

unbundle bit_operations_syntax

subsection \<open>The repeat loop\<close>

text \<open>
  C15. The copy loop \<^verbatim>\<open>do { blens[i++] = c; } while (--j);\<close> of a repeat code
  is equivalent to replacing the \<open>j\<close> entries from \<open>i\<close> by \<open>c\<close>, when they lie inside
  the vector.
\<close>

theorem repeat_fill_eq:
  "i + j \<le> length l \<Longrightarrow> repeat_fill l i j c = take i l @ replicate j c @ drop (i + j) l"
proof (induction l i j c rule: repeat_fill.induct)
  case (1 l i c)
  then show ?case by simp
next
  case (2 l i j c)
  then have "repeat_fill (l[i := c]) (Suc i) j c =
      take (Suc i) (l[i := c]) @ replicate j c @ drop (Suc i + j) (l[i := c])" by simp
  moreover have "take (Suc i) (l[i := c]) = take i l @ [c]" using "2.prems" by (simp add: take_Suc_update)
  ultimately show ?case by simp
qed

theorem repeat_fill_eq_witness:
  "repeat_fill [1, 2, 3, 4, 5 :: nat] 1 3 0 = [1, 0, 0, 0, 5]"
  using repeat_fill_eq [of 1 3 "[1, 2, 3, 4, 5 :: nat]" 0] by (simp add: numeral_eq_Suc)

lemma length_repeat_fill [simp]: "length (repeat_fill l i j c) = length l"
  by (induction l i j c rule: repeat_fill.induct) simp_all

subsection \<open>The header word\<close>

lemma dumpbits_upd_dyn [simp]:
  "dumpbits j (s\<lparr>table := t\<rparr>) = (dumpbits j s)\<lparr>table := t\<rparr>"
  "dumpbits j (s\<lparr>blens := b\<rparr>) = (dumpbits j s)\<lparr>blens := b\<rparr>"
  "dumpbits j (s\<lparr>index := i\<rparr>) = (dumpbits j s)\<lparr>index := i\<rparr>"
  by (simp_all add: dumpbits_def)

lemma mask14_word: "(0x3FFF :: uLong) = mask 14"
  by (simp add: mask_eq_exp_minus_1)

lemma needbits_read:
  assumes "clean s" "j \<le> 25" "j \<le> length (stream s z)"
  obtains r' s' z' where "needbits j r s z = Cont r' s' z'" "stream s' z' = stream s z" "clean s'"
    "j \<le> bitk s'" "bit_frame s' = bit_frame s" "input_bits s' z' = input_bits s z"
proof -
  obtain r' s' z' where nb: "needbits j r s z = Cont r' s' z'" "stream s' z' = stream s z" "clean s'"
    "j \<le> bitk s'" "bit_frame s' = bit_frame s"
    by (rule needbits_enough [OF assms(1) _ assms(3)]) (use assms(2) in simp)
  with needbits_Cont_input [OF nb(1)] that show ?thesis by blast
qed

text \<open>
  C12. \<^verbatim>\<open>case TABLE\<close> reads the 14-bit header word \<open>t\<close> from the stream: with
  \<^verbatim>\<open>HLIT\<close> (\<open>t mod 32\<close>) or \<^verbatim>\<open>HDIST\<close> (\<open>t div 32 mod 32\<close>) above 29 it is a data
  error "too many length or distance symbols"; otherwise it allocates a zeroed length
  vector of \<open>258 + HLIT + HDIST\<close> entries (the clamp to 19 never applies), returning
  \<^verbatim>\<open>Z_MEM_ERROR\<close> without consuming the header when that fails, and goes to
  \<^verbatim>\<open>BTREE\<close> with the 14 bits consumed.
\<close>

theorem table_step_header:
  assumes "clean s" "14 \<le> length (stream s z)"
  shows "let res = table_step env r s z; s' = flow_s res; z' = flow_z res; h = stream s z;
             t = nat_of_bits (take 14 h) in
    table s' = t \<and>
    (if 29 < t mod 32 \<or> 29 < t div 32 mod 32 then
       res = Leave Z_DATA_ERROR s' z' \<and> mode s' = INF_ERROR \<and>
       msg z' = ''too many length or distance symbols''
     else if \<not> zalloc_ok env (Blens_buf (dtree_total t)) then
       res = Leave Z_MEM_ERROR s' z' \<and> mode s' = mode s \<and> blens s' = blens s \<and> stream s' z' = h
     else
       flow_cont res \<and> mode s' = BTREE \<and> blens s' = Some (replicate (dtree_total t) 0) \<and>
       index s' = 0 \<and> stream s' z' = drop 14 h)"
proof -
  obtain r1 s1 z1 where nb: "needbits 14 r s z = Cont r1 s1 z1" and st: "stream s1 z1 = stream s z"
    and cl: "clean s1" and k: "14 \<le> bitk s1" and fr: "bit_frame s1 = bit_frame s"
    by (rule needbits_read [OF assms(1) _ assms(2)]) simp
  define t where "t = nat_of_bits (take 14 (stream s z))"
  have "unat (bitb s1 AND 0x3FFF) = peekbits 14 s1" by (simp add: peekbits_def mask14_word)
  also have "\<dots> = t" using peekbits_stream [OF cl k, of z1] st by (simp add: t_def)
  finally have tv: "unat (bitb s1 AND 0x3FFF) = t" .
  have n: "(if 258 + t mod 32 + t div 32 mod 32 < 19 then 19 else 258 + t mod 32 + t div 32 mod 32)
           = dtree_total t" by (simp add: dtree_total_def)
  have d: "stream (dumpbits 14 s1) z1 = drop 14 (stream s z)"
    using dumpbits_stream [OF cl k, of z1] st by simp
  have m: "mode s1 = mode s" "blens s1 = blens s" using bit_frame_blocks [OF fr] by simp_all
  have eq: "table_step env r s z =
     (if 29 < t mod 32 \<or> 29 < t div 32 mod 32 then
        Leave Z_DATA_ERROR (s1\<lparr>table := t, mode := INF_ERROR\<rparr>)
          (z1\<lparr>msg := ''too many length or distance symbols''\<rparr>)
      else if \<not> zalloc_ok env (Blens_buf (dtree_total t)) then Leave Z_MEM_ERROR (s1\<lparr>table := t\<rparr>) z1
      else Cont r1 ((dumpbits 14 (s1\<lparr>table := t\<rparr>))\<lparr>blens := Some (replicate (dtree_total t) 0),
                       index := 0, mode := BTREE\<rparr>) z1)"
    unfolding table_step_def nb flow.case Let_def tv n by simp
  show ?thesis
    unfolding eq Let_def t_def [symmetric]
    using st d m by simp
qed


subsection \<open>Code-length code lengths\<close>

lemma border_facts: "distinct border" "length border = 19" "\<forall>i < 19. border ! i < 19"
  by (simp_all add: border_def all_less_num)

lemma border_inj: "i < 19 \<Longrightarrow> k < 19 \<Longrightarrow> border ! i = border ! k \<longleftrightarrow> i = k"
  using border_facts(1,2) by (simp add: nth_eq_iff_index_eq)

lemma btree_zero_effect:
  assumes "19 \<le> length l"
  shows "fst (btree_zero i l) = max i 19 \<and> length (snd (btree_zero i l)) = length l \<and>
    (\<forall>k < 19. snd (btree_zero i l) ! (border ! k) = (if i \<le> k then 0 else l ! (border ! k)))"
  using assms
proof (induction i l rule: btree_zero.induct)
  case (1 i l)
  show ?case
  proof (cases "i < 19")
    case True
    have "19 \<le> length (l[border ! i := 0])" using "1.prems" by simp
    from "1.IH" [OF True this] True "1.prems" border_facts(3) show ?thesis
      by (auto simp: btree_zero.simps [of i l] nth_list_update border_inj)
  next
    case False
    then show ?thesis by (simp add: btree_zero.simps [of i l])
  qed
qed

lemma btree_read_lengths:
  assumes "clean s" "blens s = Some l" "19 \<le> length l" "index s \<le> 4 + table s div 1024"
    "4 + table s div 1024 \<le> 19" "3 * (4 + table s div 1024 - index s) \<le> length (stream s z)"
  shows "\<exists>r1 s1 z1 l1. btree_read r s z = Cont r1 s1 z1 \<and> index s1 = 4 + table s div 1024 \<and>
    blens s1 = Some l1 \<and> length l1 = length l \<and> clean s1 \<and>
    stream s1 z1 = drop (3 * (4 + table s div 1024 - index s)) (stream s z) \<and>
    mode s1 = mode s \<and> table s1 = table s \<and> tb s1 = tb s \<and> codes s1 = codes s \<and>
    (\<forall>i < 19. l1 ! (border ! i) = (if index s \<le> i \<and> i < 4 + table s div 1024
        then nat_of_bits (take 3 (drop (3 * (i - index s)) (stream s z))) else l ! (border ! i)))"
  using assms
proof (induction r s z arbitrary: l rule: btree_read.induct)
  case (1 r s z)
  let ?n = "4 + table s div 1024"
  show ?case
  proof (cases "index s < ?n")
    case False
    with "1.prems" show ?thesis by (simp add: btree_read.simps [of r s z])
  next
    case True
    have l3: "3 \<le> length (stream s z)" using True "1.prems"(6) by linarith
    obtain r1 s1 z1 where nb: "needbits 3 r s z = Cont r1 s1 z1" and st: "stream s1 z1 = stream s z"
      and cl: "clean s1" and k: "3 \<le> bitk s1"
      by (rule needbits_read [OF "1.prems"(1) _ l3]) simp_all
    note f = needbits_Cont_blocks [OF nb]
    define v where "v = nat_of_bits (take 3 (stream s z))"
    have vv: "unat (bitb s1 AND 7) = v"
      using peekbits_stream [OF cl k, of z1] st by (simp add: peekbits_def v_def mask_eq_exp_minus_1)
    define s2 where "s2 = dumpbits 3 (s1\<lparr>blens := Some (l[border ! index s := v]), index := Suc (index s)\<rparr>)"
    have eq: "btree_read r s z = btree_read r1 s2 z1"
      using True nb f "1.prems"(2) by (simp add: btree_read.simps [of r s z] s2_def vv)
    have cl2: "clean s2" and st2: "stream s2 z1 = drop 3 (stream s z)"
      using dumpbits_stream [OF cl k, of z1] st by (simp_all add: s2_def)
    have bi: "border ! index s < 19" using border_facts(3) True "1.prems"(5) by simp
    have p2: "blens s2 = Some (l[border ! index s := v])" "19 \<le> length (l[border ! index s := v])"
      "index s2 \<le> 4 + table s2 div 1024" "4 + table s2 div 1024 \<le> 19"
      "3 * (4 + table s2 div 1024 - index s2) \<le> length (stream s2 z1)"
      using f True "1.prems"(3,5,6) st2 by (simp_all add: s2_def)
    have s2eq: "dumpbits 3 (s1\<lparr>blens := map_option (\<lambda>l. l[border ! index s1 := unat (bitb s1 AND 7)]) (blens s1),
                   index := Suc (index s1)\<rparr>) = s2"
      using f "1.prems"(2) vv by (simp add: s2_def)
    note IH = "1.IH" [OF True nb, unfolded s2eq, OF cl2 p2]
    have ts: "table s2 = table s" "index s2 = Suc (index s)" "mode s2 = mode s" "tb s2 = tb s"
      "codes s2 = codes s" using f by (simp_all add: s2_def)
    have dd: "drop (3 * (i - Suc (index s))) (drop 3 (stream s z)) = drop (3 * (i - index s)) (stream s z)"
      if "Suc (index s) \<le> i" for i
    proof -
      from that have "i - index s = Suc (i - Suc (index s))" by simp
      then show ?thesis by (simp add: add.commute)
    qed
    from IH obtain r1' s1' z1' l1 where
      res: "btree_read r1 s2 z1 = Cont r1' s1' z1'" "index s1' = 4 + table s div 1024"
      "blens s1' = Some l1" "length l1 = length l" "clean s1'"
      "stream s1' z1' = drop (3 * (4 + table s div 1024 - index s)) (stream s z)"
      "mode s1' = mode s" "table s1' = table s" "tb s1' = tb s" "codes s1' = codes s"
      and vals: "\<forall>i < 19. l1 ! (border ! i) = (if index s2 \<le> i \<and> i < 4 + table s2 div 1024
          then nat_of_bits (take 3 (drop (3 * (i - index s2)) (stream s2 z1)))
          else (l[border ! index s := v]) ! (border ! i))"
      using IH ts st2 dd [of "4 + table s div 1024"] True by (auto simp: Suc_diff_Suc)
    have "\<forall>i < 19. l1 ! (border ! i) = (if index s \<le> i \<and> i < 4 + table s div 1024
          then nat_of_bits (take 3 (drop (3 * (i - index s)) (stream s z))) else l ! (border ! i))"
    proof (intro allI impI)
      fix i :: nat assume i: "i < 19"
      show "l1 ! (border ! i) = (if index s \<le> i \<and> i < 4 + table s div 1024
          then nat_of_bits (take 3 (drop (3 * (i - index s)) (stream s z))) else l ! (border ! i))"
        using vals [rule_format, OF i] ts st2 dd [of i] i True "1.prems"(3,5) bi border_inj [OF i, of "index s"]
        by (cases "i = index s") (auto simp: v_def nth_list_update)
    qed
    with eq res show ?thesis by auto
  qed
qed

text \<open>
  C13. \<^verbatim>\<open>case BTREE\<close> from its start (\<open>index = 0\<close>), with enough input: the
  \<open>n = 4 + HCLEN\<close> 3-bit values read from the stream are stored at positions
  \<open>border ! 0, \<dots>, border ! (n - 1)\<close> of the length vector, the other positions of
  \<^verbatim>\<open>border\<close> are zero, exactly \<open>3 n\<close> bits are consumed, and the outcome is that of
  \<^verbatim>\<open>inflate_trees_bits\<close> on this vector: on success the decoder goes to \<^verbatim>\<open>DTREE\<close>
  with the new table and width, on failure it returns the builder's status, in
  \<^verbatim>\<open>INF_ERROR\<close> for a data error.
\<close>

theorem btree_step_lengths:
  assumes "clean s" "index s = 0" "blens s = Some l" "19 \<le> length l" "table s < 16384"
    "3 * (4 + table s div 1024) \<le> length (stream s z)"
  shows "let n = 4 + table s div 1024; h = stream s z; res = btree_step env r s z;
             s' = flow_s res; z' = flow_z res in
    \<exists>l'. blens s' = Some l' \<and> length l' = length l \<and>
      (\<forall>i < 19. l' ! (border ! i) = (if i < n then nat_of_bits (take 3 (drop (3 * i) h)) else 0)) \<and>
      stream s' z' = drop (3 * n) h \<and>
      (case trees_bits env l' 7 of
         Inl e \<Rightarrow> res = Leave e s' z' \<and> mode s' = (if e = Z_DATA_ERROR then INF_ERROR else mode s)
       | Inr (b, t) \<Rightarrow> flow_cont res \<and> mode s' = DTREE \<and> tb s' = Some t \<and> bb s' = b \<and> index s' = 0)"
proof -
  have n: "4 + table s div 1024 \<le> 19" using assms(5) by simp
  from btree_read_lengths [OF assms(1,3,4) _ n, of z r] assms(2,6)
  obtain r1 s1 z1 l1 where br: "btree_read r s z = Cont r1 s1 z1" "index s1 = 4 + table s div 1024"
    "blens s1 = Some l1" "length l1 = length l" "stream s1 z1 = drop (3 * (4 + table s div 1024)) (stream s z)"
    "mode s1 = mode s" and v1: "\<forall>i < 19. l1 ! (border ! i) = (if i < 4 + table s div 1024
        then nat_of_bits (take 3 (drop (3 * i) (stream s z))) else l ! (border ! i))"
    by auto
  obtain i l' where bz: "btree_zero (index s1) l1 = (i, l')" by fastforce
  from btree_zero_effect [of l1 "index s1"] br(4) assms(4) bz
  have z: "length l' = length l" "\<forall>k < 19. l' ! (border ! k) = (if index s1 \<le> k then 0 else l1 ! (border ! k))"
    by simp_all
  have vals: "\<forall>k < 19. l' ! (border ! k) = (if k < 4 + table s div 1024
        then nat_of_bits (take 3 (drop (3 * k) (stream s z))) else 0)"
    using z(2) v1 br(2) by auto
  have eq: "btree_step env r s z =
      (case trees_bits env l' 7 of
         Inl t \<Rightarrow> Leave t (if t = Z_DATA_ERROR then s1\<lparr>index := i, blens := Some l', bb := 7, mode := INF_ERROR\<rparr>
                           else s1\<lparr>index := i, blens := Some l', bb := 7\<rparr>) z1
       | Inr (bb', tb') \<Rightarrow> Cont r1 (s1\<lparr>index := i, blens := Some l', bb := 7, bb := bb', tb := Some tb',
                                         index := 0, mode := DTREE\<rparr>) z1)"
    using br(1,3) bz by (simp add: btree_step_def Let_def)
  have st: "stream (s1\<lparr>index := a, blens := b, bb := c\<rparr>) z1 = stream s1 z1"
    "stream (s1\<lparr>index := a, blens := b, bb := c, mode := m\<rparr>) z1 = stream s1 z1"
    "stream (s1\<lparr>index := a, blens := b, bb := c, tb := d, mode := m\<rparr>) z1 = stream s1 z1" for a b c d m
    by simp_all
  show ?thesis
    unfolding Let_def eq
    using z(1) vals br(5,6) st by (auto split: sum.splits)
qed

theorem btree_step_lengths_witness:
  "\<exists>l'. blens (flow_s (btree_step ex_env Z_OK (ex_state BTREE\<lparr>blens := Some (replicate 19 0)\<rparr>) (ex_in [1, 0] 0)))
          = Some l' \<and> l' ! 16 = 1 \<and> l' ! 17 = 0 \<and> l' ! 15 = 0 \<and>
   mode (flow_s (btree_step ex_env Z_OK (ex_state BTREE\<lparr>blens := Some (replicate 19 0)\<rparr>) (ex_in [1, 0] 0))) = DTREE"
proof -
  let ?s = "ex_state BTREE\<lparr>blens := Some (replicate 19 0)\<rparr>" and ?z = "ex_in [1, 0] 0"
  have h: "clean ?s" "index ?s = 0" "blens ?s = Some (replicate 19 0)" "19 \<le> length (replicate 19 (0::nat))"
    "table ?s < 16384" "3 * (4 + table ?s div 1024) \<le> length (stream ?s ?z)"
    by (simp_all add: ex_state_def clean_def length_stream ex_in_def avail_in_def)
  have v: "nat_of_bits (take 3 (stream ?s ?z)) = 1" by (simp add: ex_stream_simps upt_rec)
  have b: "border ! 0 = 16" "border ! 1 = 17" "border ! 18 = 15" by (simp_all add: border_def)
  have t: "table ?s = 0" "trees_bits ex_env l 7 = Inr (7, ())" for l by (simp_all add: ex_state_def ex_env_def)
  from btree_step_lengths [OF h, of ex_env Z_OK] obtain l' where
    l1: "blens (flow_s (btree_step ex_env Z_OK ?s ?z)) = Some l'"
    and l2: "\<forall>i < 19. l' ! (border ! i) = (if i < 4 then nat_of_bits (take 3 (drop (3 * i) (stream ?s ?z))) else 0)"
    and l3: "mode (flow_s (btree_step ex_env Z_OK ?s ?z)) = DTREE"
    by (auto simp: Let_def t)
  moreover have "l' ! 16 = 1" "l' ! 15 = 0" "l' ! 17 = 0"
    using v b spec [OF l2, of 0] spec [OF l2, of 18] spec [OF l2, of 1]
    by (simp_all add: ex_stream_simps upt_rec)
  ultimately show ?thesis by blast
qed

subsection \<open>Code lengths\<close>

text \<open>
  C14. The \<^verbatim>\<open>DTREE\<close> loop stays inside the length vector allocated by
  \<^verbatim>\<open>TABLE\<close>: started with a vector of \<open>dtree_total\<close> entries and the cursor within
  it, every outcome keeps a vector of that length and the cursor at most
  \<open>dtree_total\<close> (so each literal is stored below the end and, by the repeat check,
  each repeat ends at or before it), and when the loop completes the cursor is exactly
  \<open>dtree_total\<close>: all \<open>258 + HLIT + HDIST\<close> lengths have been read.
\<close>

theorem dtree_read_bounds:
  fixes env :: "('t, 'c) env" and s :: "('t, 'c) blocks_state"
  assumes "blens s = Some l" "length l = dtree_total (table s)" "index s \<le> dtree_total (table s)"
  shows "let res = dtree_read env r s z; s' = flow_s res in
    (\<exists>l'. blens s' = Some l' \<and> length l' = length l) \<and> table s' = table s \<and>
    index s' \<le> dtree_total (table s) \<and> (flow_cont res \<longrightarrow> index s' = dtree_total (table s))"
proof -
  let ?I = "\<lambda>(s' :: ('t, 'c) blocks_state) (z' :: z_stream). (\<exists>l'. blens s' = Some l' \<and> length l' = length l) \<and>
              table s' = table s \<and> index s' \<le> dtree_total (table s)"
  let ?R = "\<lambda>res :: ('t, 'c) blocks_state flow. ?I (flow_s res) (flow_z res) \<and>
              (flow_cont res \<longrightarrow> index (flow_s res) = dtree_total (table s))"
  have "?R (dtree_read env r s z)"
  proof (rule dtree_read_rule [where I = ?I])
    show "?I s z" using assms by simp
  next
    fix r z' r1 s1 z1 and s' :: "('t, 'c) blocks_state"
    assume "?I s' z'" "\<not> index s' < dtree_total (table s')"
    then show "?R (Cont r s' z')" by simp
  next
    fix r z' r1 s1 z1 and s' :: "('t, 'c) blocks_state"
    assume "?I s' z'" "needbits (bb s') r s' z' = Leave r1 s1 z1"
    with needbits_frame [of "bb s'" r s' z']
    show "?R (Leave r1 s1 z1)" using bit_frame_blocks [of s1 s'] by auto
  next
    fix r z' r1 s1 z1 t c and s' :: "('t, 'c) blocks_state"
    assume "?I s' z'" "index s' < dtree_total (table s')" "needbits (bb s') r s' z' = Cont r1 s1 z1"
    with needbits_Cont_blocks [of "bb s'" r s' z' r1 s1 z1]
    show "?I ((dumpbits t s1)\<lparr>blens := map_option (\<lambda>l. l[index s1 := c]) (blens s1),
                               index := Suc (index s1)\<rparr>) z1" by auto
  next
    fix r z' r1 s1 z1 t c r2 s2 z2 and s' :: "('t, 'c) blocks_state"
    assume "?I s' z'" "needbits (bb s') r s' z' = Cont r1 s1 z1"
      "needbits (t + (if c = 18 then 7 else c - 14)) r1 s1 z1 = Leave r2 s2 z2"
    with needbits_Cont_blocks [of "bb s'" r s' z' r1 s1 z1] needbits_frame [of "t + (if c = 18 then 7 else c - 14)" r1 s1 z1]
    show "?R (Leave r2 s2 z2)" using bit_frame_blocks [of s2 s1] by auto
  next
    fix r z' r1 s1 z1 t c r2 s2 z2 and s' :: "('t, 'c) blocks_state"
    assume "?I s' z'" "needbits (bb s') r s' z' = Cont r1 s1 z1"
      "needbits (t + (if c = 18 then 7 else c - 14)) r1 s1 z1 = Cont r2 s2 z2"
    with needbits_Cont_blocks [of "bb s'" r s' z' r1 s1 z1]
      needbits_Cont_blocks [of "t + (if c = 18 then 7 else c - 14)" r1 s1 z1 r2 s2 z2]
    show "let i = if c = 18 then 7 else c - 14; s3 = dumpbits t s2;
             j = (if c = 18 then 11 else 3) + unat (bitb s3 AND mask i); s4 = dumpbits i s3; k = index s4
         in if dtree_total (table s4) < k + j \<or> (c = 16 \<and> k < 1) then
              ?R (Leave Z_DATA_ERROR (s4\<lparr>mode := INF_ERROR\<rparr>) (z2\<lparr>msg := ''invalid bit length repeat''\<rparr>))
            else
              ?I (s4\<lparr>blens := map_option (\<lambda>l. repeat_fill l k j (if c = 16 then the (blens s4) ! (k - 1) else 0))
                                       (blens s4),
                    index := k + j\<rparr>) z2"
      by (auto simp: Let_def)
  qed
  then show ?thesis by (simp add: Let_def)
qed

theorem dtree_read_bounds_witness:
  "flow_cont (dtree_read ex_env Z_OK (ex_state DTREE\<lparr>blens := Some (replicate 258 0), index := 256, bb := 1,
                                                     tb := Some ()\<rparr>) (ex_in [0] 0)) \<and>
   index (flow_s (dtree_read ex_env Z_OK (ex_state DTREE\<lparr>blens := Some (replicate 258 0), index := 256, bb := 1,
                                                     tb := Some ()\<rparr>) (ex_in [0] 0))) = 258"
proof -
  let ?s = "ex_state DTREE\<lparr>blens := Some (replicate 258 0), index := 256, bb := 1, tb := Some ()\<rparr>"
  have h: "blens ?s = Some (replicate 258 0)" "length (replicate 258 (0::nat)) = dtree_total (table ?s)"
    "index ?s \<le> dtree_total (table ?s)"
    by (simp_all add: ex_state_def dtree_total_def)
  have c: "flow_cont (dtree_read ex_env Z_OK ?s (ex_in [0] 0))"
    by (simp add: dtree_read.simps needbits.simps ex_state_def ex_in_def ex_env_def dtree_total_def
        avail_in_def nextbyte_def Let_def dumpbits_def)
  from dtree_read_bounds [OF h, of ex_env Z_OK "ex_in [0] 0"] c show ?thesis
    by (simp add: Let_def ex_state_def dtree_total_def)
qed

theorem table_step_header_witness:
  "mode (flow_s (table_step ex_env Z_OK (ex_state TABLE) (ex_in [0x1E, 0] 0))) = INF_ERROR \<and>
   mode (flow_s (table_step ex_env Z_OK (ex_state TABLE) (ex_in [0x1D, 0] 0))) = BTREE \<and>
   blens (flow_s (table_step ex_env Z_OK (ex_state TABLE) (ex_in [0x1D, 0] 0))) = Some (replicate 287 0)"
proof -
  have h: "clean (ex_state TABLE)" "14 \<le> length (stream (ex_state TABLE) (ex_in [0x1E, 0] 0))"
    "14 \<le> length (stream (ex_state TABLE) (ex_in [0x1D, 0] 0))"
    by (simp_all add: ex_state_def clean_def length_stream ex_in_def avail_in_def)
  have t: "nat_of_bits (take 14 (stream (ex_state TABLE) (ex_in [0x1E, 0] 0))) = 30"
    "nat_of_bits (take 14 (stream (ex_state TABLE) (ex_in [0x1D, 0] 0))) = 29"
    by (simp_all add: ex_stream_simps upt_rec)
  have a: "zalloc_ok ex_env (Blens_buf 287)" by (simp add: ex_env_def)
  from table_step_header [OF h(1,2), of ex_env Z_OK] table_step_header [OF h(1,3), of ex_env Z_OK] t a
  show ?thesis by (simp add: Let_def dtree_total_def)
qed

end
