(* ===== verification/Spec2Isabelle.thy ===== *)
theory Spec2Isabelle
  imports Roundtrip Stored Dynamic
begin

text \<open>
  Verification of the DEFLATE block decoder of zlib 0.9x, \<^verbatim>\<open>src/infblock.c\<close>.

  \<^bold>\<open>The program.\<close> \<^verbatim>\<open>inflate_blocks_new\<close> allocates the decoder state and its
  sliding window; \<^verbatim>\<open>inflate_blocks\<close> is called repeatedly with the caller's
  \<^verbatim>\<open>z_stream\<close> and runs a \<^verbatim>\<open>while (1) switch (s->mode)\<close> state machine over the
  modes \<^verbatim>\<open>TYPE\<close> (block header), \<^verbatim>\<open>LENS\<close>/\<^verbatim>\<open>STORED\<close> (stored blocks),
  \<^verbatim>\<open>TABLE\<close>/\<^verbatim>\<open>BTREE\<close>/\<^verbatim>\<open>DTREE\<close> (dynamic Huffman headers), \<^verbatim>\<open>CODES\<close> (the
  compressed data, handed to \<^verbatim>\<open>inflate_codes\<close>), \<^verbatim>\<open>DRY\<close>, \<^verbatim>\<open>DONE\<close> and
  \<^verbatim>\<open>INF_ERROR\<close>; every exit goes through \<^verbatim>\<open>inflate_flush\<close>, which copies window bytes
  to the caller; \<^verbatim>\<open>inflate_blocks_free\<close> releases the state. The input bits pass
  through the bit buffer \<^verbatim>\<open>b\<close>/\<^verbatim>\<open>k\<close> (macros of \<^verbatim>\<open>infutil.h\<close>), the output
  through the circular window.

  \<^bold>\<open>Theories and what they model.\<close>
  \<^item> \<open>Prelude\<close>: status codes, the \<^verbatim>\<open>z_stream\<close> record (input as a byte list and a
    cursor \<open>pos_in\<close>, output as the list of delivered bytes), the \<open>flow\<close> type of a
    step that continues (\<open>Cont\<close>) or leaves (\<open>Leave\<close>, the C \<^verbatim>\<open>LEAVE\<close>).
  \<^item> \<open>BitBuf\<close>: \<^verbatim>\<open>NEXTBYTE\<close>, \<^verbatim>\<open>NEEDBITS\<close>, \<^verbatim>\<open>DUMPBITS\<close>, \<^verbatim>\<open>inflate_mask\<close>
    (\<open>nextbyte\<close>, \<open>needbits\<close>, \<open>dumpbits\<close>, \<open>peekbits\<close>) on a 32-bit
    \<^verbatim>\<open>uLong\<close> buffer, with the abstract bit stream \<open>stream\<close> (pending bits then the
    unread bytes, LSB first) and the invariant \<open>clean\<close>.
  \<^item> \<open>Window\<close>: \<^verbatim>\<open>WAVAIL\<close>, \<^verbatim>\<open>WRAP\<close>, \<^verbatim>\<open>OUTBYTE\<close>, \<^verbatim>\<open>NEEDOUT\<close>/\<^verbatim>\<open>FLUSH\<close> and
    \<^verbatim>\<open>inflate_flush\<close> with its checksum update, against the abstract queue
    \<open>pending\<close>; \<open>inflate_flush_refines\<close> shows a flush delivers the first
    \<^verbatim>\<open>avail_out\<close> pending bytes in order.
  \<^item> \<open>Blocks\<close>: \<^verbatim>\<open>struct inflate_blocks_state\<close> as the record \<open>blocks_state\<close>;
    one definition per case of the switch (\<open>type_step\<close> lines 108--147,
    \<open>lens_step\<close> 148--160, \<open>stored_copy\<close> 161--168, \<open>table_step\<close> 169--191,
    \<open>btree_read\<close>/\<open>btree_zero\<close>/\<open>btree_step\<close> 192--212, \<open>dtree_read\<close>/
    \<open>repeat_fill\<close>/\<open>dtree_step\<close> 213--284, \<open>codes_step\<close> 285--304, \<open>dry_step\<close>
    305--309), \<open>blocks_step\<close> for the dispatch (310--319), \<open>blocks_loop\<close> for the
    loop as a \<^theory_text>\<open>partial_function (option)\<close>, \<open>inflate_blocks\<close>,
    \<open>inflate_blocks_new\<close> (63--86) and \<open>inflate_blocks_free\<close> (323--337). The C
    locals \<^verbatim>\<open>b, k, p, n, q, m\<close> are identified with the state and stream fields that
    \<^verbatim>\<open>LOAD\<close>/\<^verbatim>\<open>UPDATE\<close> copy them from and to.
  \<^item> \<open>Steps\<close>: the header cases (TYPE, LENS) and DRY against the bit stream.
  \<^item> \<open>Termination\<close>: every call returns.
  \<^item> \<open>Stored\<close>: the STORED copy loop refines "append the next \<^verbatim>\<open>left\<close> bytes".
  \<^item> \<open>Dynamic\<close>: TABLE, BTREE and DTREE.
  \<^item> \<open>Scenarios\<close>, \<open>Session\<close>: concrete sessions, the inductive set \<open>session\<close>
    of states reachable by \<^verbatim>\<open>inflate_blocks_new\<close> then calls, the ownership invariant
    and what \<^verbatim>\<open>inflate_blocks_free\<close> leaks, terminal modes, the end of a block.
  \<^item> \<open>Roundtrip\<close>: an encoder of stored blocks and a whole call decoding it.

  \<^bold>\<open>Interfaces.\<close> The tree builder (\<^verbatim>\<open>inftrees.c\<close>), the codes decoder
  (\<^verbatim>\<open>infcodes.c\<close>) and the allocator are not in \<^verbatim>\<open>src/\<close>; they are the fields of the
  record \<open>env\<close>, and every theorem holds for every \<open>env\<close> (except where a hypothesis
  names a property of it). Witnesses use the concrete \<open>ex_env\<close>.

  \<^bold>\<open>What is shown.\<close> Termination of every call (\<open>inflate_blocks_terminates\<close>), by
  the measure \<open>8 \<cdot> (8 \<cdot> avail_in + bitk) + mode_rank\<close>: each pass of the loop
  consumes input bits or moves down the mode ranking; its one hypothesis,
  \<open>codes_progress\<close>, is the contract that \<^verbatim>\<open>inflate_codes\<close> does not report the end
  of a block while holding more input than it was given. Functional behaviour of
  each case on every branch, errors included (\<open>type_step_header\<close>,
  \<open>lens_step_lengths\<close>, \<open>table_step_header\<close>, \<open>btree_step_lengths\<close>,
  \<open>dtree_read_bounds\<close>, \<open>dry_step_delivers\<close>, \<open>codes_step_end_of_block\<close>,
  \<open>terminal_modes\<close>); the refinement of the STORED copy (\<open>stored_copy_effect\<close>);
  the equivalence of the repeat loop with a closed form (\<open>repeat_fill_eq\<close>); the
  ownership invariant over all sessions (\<open>session_owns_ok\<close>) and the exact leak of
  \<^verbatim>\<open>inflate_blocks_free\<close> (\<open>free_leaks\<close>); a stored-block round trip through a
  fresh session (\<open>stored_block_roundtrip\<close>). Three divergences from the spec are
  proved as theorems: the stale bits left by \<^verbatim>\<open>LENS\<close> (\<open>lens_step_stale_bits\<close>),
  the empty final stored block that goes to \<^verbatim>\<open>TYPE\<close> (\<open>lens_step_lengths\<close>), and
  the blens/bit-length-tree leak (\<open>free_leaks\<close>).

  \<^bold>\<open>Bounds.\<close> No fuel is used: the loop is a partial function and its totality is
  proved. \<^verbatim>\<open>uLong\<close> is 32 bits (\<^verbatim>\<open>b\<close> and \<^verbatim>\<open>left\<close> are \<open>32 word\<close>); on a
  64-bit \<^verbatim>\<open>uLong\<close> the complement test of line 150 would compare different widths.
  \<^verbatim>\<open>k\<close> and the window offsets are \<open>nat\<close>: \<^verbatim>\<open>DUMPBITS\<close> beyond \<^verbatim>\<open>k\<close> stops
  at 0, and \<^verbatim>\<open>p--\<close> at line 302 at offset 0 (the theorems assume the states in
  which C does not underflow).

  \<^bold>\<open>Not modelled.\<close> \<^verbatim>\<open>inftrees.c\<close>, \<^verbatim>\<open>infcodes.c\<close> and the checksum function
  (external, not in \<^verbatim>\<open>src/\<close>: interface fields); the error messages set by the
  tree builder; memory layout (pointers are offsets, \<^verbatim>\<open>ZALLOC\<close> is zero-filling
  success or failure, \<^verbatim>\<open>ZFREE\<close> is the clearing of an option field); the spec's
  session reset, which has no counterpart in this version of \<^verbatim>\<open>infblock.c\<close>.
\<close>

end
